theory Spec2Isabelle
  imports Complex_Main "HOL-Library.AList"
begin

section \<open>Samples and envelopes\<close>

text \<open>
  The C++ sources work on \<^verbatim>\<open>float\<close> samples, IEEE 754 binary32 (progress values are
  \<^verbatim>\<open>double\<close> and are modelled by reals). The number a sample stands for is an extended real:
  a real or one of the two infinities, ordered as numbers are.
\<close>

datatype xreal = MInfty | Real real | PInfty

instantiation xreal :: linorder
begin

definition less_eq_xreal :: "xreal \<Rightarrow> xreal \<Rightarrow> bool" where
  "less_eq_xreal a b =
     (case a of
        MInfty \<Rightarrow> True
      | Real x \<Rightarrow> (case b of MInfty \<Rightarrow> False | Real y \<Rightarrow> x \<le> y | PInfty \<Rightarrow> True)
      | PInfty \<Rightarrow> (case b of PInfty \<Rightarrow> True | _ \<Rightarrow> False))"

definition less_xreal :: "xreal \<Rightarrow> xreal \<Rightarrow> bool" where
  "less_xreal a b = (a \<le> b \<and> \<not> b \<le> (a::xreal))"

instance
  by standard (auto simp: less_eq_xreal_def less_xreal_def split: xreal.splits)

end

fun xabs :: "xreal \<Rightarrow> xreal" where
  "xabs MInfty = PInfty"
| "xabs (Real r) = Real \<bar>r\<bar>"
| "xabs PInfty = PInfty"

fun xneg :: "xreal \<Rightarrow> xreal" where
  "xneg MInfty = PInfty"
| "xneg (Real r) = Real (- r)"
| "xneg PInfty = MInfty"

text \<open>
  A \<^verbatim>\<open>float\<close> is a NaN, the negative zero, or a number; \<open>Num (Real 0)\<close> is the positive zero.
  All NaNs are one value (their sign and payload are not modelled). The finite numbers
  range over the reals; those that are values of binary32 are the ones that rounding
  leaves as they are (\<open>binary32\<close> below). The functions of the sources receive values of
  binary32 only.
\<close>

datatype float = NaN | NZero | Num xreal

abbreviation Fin :: "real \<Rightarrow> float" where
  "Fin r \<equiv> Num (Real r)"

abbreviation PInf :: float where
  "PInf \<equiv> Num PInfty"

abbreviation MInf :: float where
  "MInf \<equiv> Num MInfty"

text \<open>
  The number a float stands for. A NaN stands for none: \<open>val NaN\<close> is never looked at (every
  use below is guarded by a test for NaN).
\<close>

fun val :: "float \<Rightarrow> xreal" where
  "val (Num x) = x"
| "val NZero = Real 0"
| "val NaN = Real 0"

text \<open>The sign bit of a float that is not a NaN, and the float of a sign and a magnitude.\<close>

fun negative :: "float \<Rightarrow> bool" where
  "negative (Num x) = (x < Real 0)"
| "negative NZero = True"
| "negative NaN = False"

definition with_sign :: "bool \<Rightarrow> xreal \<Rightarrow> float" where
  "with_sign neg m =
     (if neg then (if m = Real 0 then NZero else Num (xneg m)) else Num m)"

text \<open>
  Rounding a magnitude to binary32, to nearest with ties to even (the default rounding
  mode). \<open>bitlength n\<close> is the number of binary digits of \<open>n\<close>; \<open>expo m\<close> is the exponent \<open>e\<close>
  with \<open>2^e \<le> m < 2^(e+1)\<close>; below \<open>2^-126\<close> lie the subnormal numbers, which share the
  exponent \<open>-126\<close>; the significand has 24 binary digits, so neighbouring values of a
  binade are \<open>2^(e-23)\<close> apart; a result of \<open>2^128\<close> or more is an overflow to infinity.
\<close>

function bitlength :: "int \<Rightarrow> int" where
  "bitlength n = (if 0 < n then bitlength (n div 2) + 1 else 0)"
  by pat_completeness auto
termination
  by (relation "measure nat") auto

declare bitlength.simps [simp del]

definition expo :: "real \<Rightarrow> int" where
  "expo m =
     (if 1 \<le> m then bitlength \<lfloor>m\<rfloor> - 1
      else - bitlength (\<lceil>1 / m\<rceil> - 1))"

definition binade :: "real \<Rightarrow> int" where
  "binade m = (if m < 2 powi (- 126) then - 126 else expo m)"

definition ulp32 :: "real \<Rightarrow> real" where
  "ulp32 m = 2 powi (binade m - 23)"

definition rne :: "real \<Rightarrow> int" where
  "rne x =
     (let f = \<lfloor>x\<rfloor>; d = x - of_int f
      in if d < 1 / 2 then f
         else if 1 / 2 < d then f + 1
         else if even f then f else f + 1)"

definition round32 :: "real \<Rightarrow> xreal" where
  "round32 m =
     (let r = of_int (rne (m / ulp32 m)) * ulp32 m
      in if 2 ^ 128 \<le> r then PInfty else Real r)"

text \<open>
  Division and multiplication of magnitudes; \<open>None\<close> is the invalid operation, whose result
  is a NaN (\<open>0 / 0\<close>, \<open>\<infinity> / \<infinity>\<close>, \<open>0 * \<infinity>\<close>).
\<close>

fun mdiv :: "xreal \<Rightarrow> xreal \<Rightarrow> xreal option" where
  "mdiv (Real x) (Real y) =
     (if y = 0 then (if x = 0 then None else Some PInfty) else Some (round32 (x / y)))"
| "mdiv (Real x) PInfty = Some (Real 0)"
| "mdiv PInfty (Real y) = Some PInfty"
| "mdiv a b = None"

fun mmul :: "xreal \<Rightarrow> xreal \<Rightarrow> xreal option" where
  "mmul (Real x) (Real y) = Some (round32 (x * y))"
| "mmul (Real x) PInfty = (if x = 0 then None else Some PInfty)"
| "mmul PInfty (Real y) = (if y = 0 then None else Some PInfty)"
| "mmul PInfty PInfty = Some PInfty"
| "mmul a b = None"

text \<open>
  The operators of C++ on \<^verbatim>\<open>float\<close>, under the names they have in the sources: the literals
  \<^verbatim>\<open>0.0f\<close> and \<^verbatim>\<open>1.0f\<close>, the comparisons (false as soon as an operand is a NaN; the two
  zeros compare equal), \<^verbatim>\<open>std::abs\<close>, the unary minus, \<^verbatim>\<open>*\<close> and \<^verbatim>\<open>/\<close> (a NaN operand gives a
  NaN; the sign of the result is the exclusive or of the signs). \<^verbatim>\<open>float\<close> expressions are
  evaluated in \<^verbatim>\<open>float\<close> (\<^verbatim>\<open>FLT_EVAL_METHOD\<close> 0, as on x86-64 and ARM).
\<close>

instantiation float :: "{zero, one, ord, abs, uminus, times, inverse}"
begin

definition zero_float :: float where
  "zero_float = Fin 0"

definition one_float :: float where
  "one_float = Fin 1"

definition less_eq_float :: "float \<Rightarrow> float \<Rightarrow> bool" where
  "less_eq_float a b = (a \<noteq> NaN \<and> b \<noteq> NaN \<and> val a \<le> val b)"

definition less_float :: "float \<Rightarrow> float \<Rightarrow> bool" where
  "less_float a b = (a \<noteq> NaN \<and> b \<noteq> NaN \<and> val a < val b)"

definition abs_float :: "float \<Rightarrow> float" where
  "abs_float a = (case a of NaN \<Rightarrow> NaN | NZero \<Rightarrow> Fin 0 | Num x \<Rightarrow> Num (xabs x))"

definition uminus_float :: "float \<Rightarrow> float" where
  "uminus_float a =
     (case a of NaN \<Rightarrow> NaN | NZero \<Rightarrow> Fin 0
      | Num x \<Rightarrow> if x = Real 0 then NZero else Num (xneg x))"

definition times_float :: "float \<Rightarrow> float \<Rightarrow> float" where
  "times_float a b =
     (if a = NaN \<or> b = NaN then NaN
      else case mmul (val \<bar>a\<bar>) (val \<bar>b\<bar>) of
             None \<Rightarrow> NaN
           | Some m \<Rightarrow> with_sign (negative a \<noteq> negative b) m)"

definition divide_float :: "float \<Rightarrow> float \<Rightarrow> float" where
  "divide_float a b =
     (if a = NaN \<or> b = NaN then NaN
      else case mdiv (val \<bar>a\<bar>) (val \<bar>b\<bar>) of
             None \<Rightarrow> NaN
           | Some m \<Rightarrow> with_sign (negative a \<noteq> negative b) m)"

definition inverse_float :: "float \<Rightarrow> float" where
  "inverse_float a = divide (Fin 1) a"

instance ..

end

text \<open>
  The magnitude of a float that is not a NaN; the floats that are finite; the floats that
  are values of binary32.
\<close>

definition magnitude :: "float \<Rightarrow> xreal" where
  "magnitude a = val \<bar>a\<bar>"

definition finite_float :: "float \<Rightarrow> bool" where
  "finite_float a = (case a of Num (Real r) \<Rightarrow> True | NZero \<Rightarrow> True | _ \<Rightarrow> False)"

definition binary32 :: "float \<Rightarrow> bool" where
  "binary32 a = (case a of Num (Real r) \<Rightarrow> round32 \<bar>r\<bar> = Real \<bar>r\<bar> | _ \<Rightarrow> True)"

text \<open>An envelope is \<^verbatim>\<open>std::vector<std::vector<float>>\<close>, indexed \<^verbatim>\<open>[channel][pixel]\<close>.\<close>

type_synonym sample = float
type_synonym envelope = "sample list list"

text \<open>\<^verbatim>\<open>std::max(a, b)\<close> is \<^verbatim>\<open>(a < b) ? b : a\<close>.\<close>

definition std_max :: "sample \<Rightarrow> sample \<Rightarrow> sample" where
  "std_max a b = (if a < b then b else a)"

section \<open>WaveformProcessor::normalizeWaveform\<close>

text \<open>
  The first loop over a channel (\<^verbatim>\<open>Find max amplitude above threshold\<close>), with the running
  \<^verbatim>\<open>maxAmplitude\<close> as accumulator.
\<close>

primrec maxAboveThreshold :: "sample \<Rightarrow> sample list \<Rightarrow> sample \<Rightarrow> sample" where
  "maxAboveThreshold threshold [] maxAmplitude = maxAmplitude"
| "maxAboveThreshold threshold (s # rest) maxAmplitude =
     maxAboveThreshold threshold rest
       (if \<bar>s\<bar> \<ge> threshold then std_max maxAmplitude \<bar>s\<bar> else maxAmplitude)"

text \<open>The second loop: one \<^verbatim>\<open>push_back\<close> per sample.\<close>

definition normalizeSample :: "sample \<Rightarrow> sample \<Rightarrow> sample \<Rightarrow> sample \<Rightarrow> sample" where
  "normalizeSample maxAmplitude scale threshold s =
     (if \<bar>s\<bar> < threshold then 0 else (s / maxAmplitude) * scale)"

text \<open>The body of the loop over the channels of \<^verbatim>\<open>data\<close>.\<close>

definition normalizeChannel :: "sample list \<Rightarrow> sample \<Rightarrow> sample \<Rightarrow> sample list" where
  "normalizeChannel channelData scale threshold =
     (if channelData = [] then []
      else
        let maxAmplitude = maxAboveThreshold threshold channelData 0 in
        if maxAmplitude > 0
        then map (normalizeSample maxAmplitude scale threshold) channelData
        else replicate (length channelData) 0)"

definition normalizeWaveform :: "envelope \<Rightarrow> sample \<Rightarrow> sample \<Rightarrow> envelope" where
  "normalizeWaveform data scale threshold =
     (if data = [] then [] else map (\<lambda>channelData. normalizeChannel channelData scale threshold) data)"

text \<open>
  The specification's reading of the same pass, written from its words: \<open>M\<close> is the maximum
  magnitude among the samples of the channel with \<open>\<bar>s\<bar> \<ge> t\<close> (and 0 when there is none);
  a sample with \<open>\<bar>s\<bar> < t\<close>, or any sample when \<open>M = 0\<close>, maps to 0, every other sample
  to \<open>(s / M) * scale\<close>. The comparisons and the arithmetic are those of \<^verbatim>\<open>float\<close>.
\<close>

definition spec_M :: "sample \<Rightarrow> sample list \<Rightarrow> sample" where
  "spec_M t ch =
     (if \<exists>s \<in> set ch. t \<le> \<bar>s\<bar>
      then Num (Max {magnitude s |s. s \<in> set ch \<and> t \<le> \<bar>s\<bar>}) else 0)"

definition spec_normalizeChannel :: "sample list \<Rightarrow> sample \<Rightarrow> sample \<Rightarrow> sample list" where
  "spec_normalizeChannel ch scale t =
     map (\<lambda>s. if \<bar>s\<bar> < t \<or> spec_M t ch = 0 then 0 else (s / spec_M t ch) * scale) ch"

section \<open>WaveformProcessor::processWaveform\<close>

subsection \<open>The reductions\<close>

text \<open>
  The scalar reduction
  \<^verbatim>\<open>for (size_t i = start; i < end; i += step) m = std::max(m, std::abs(data[i]));\<close>
  It is the strided loop of \<^verbatim>\<open>processWaveform\<close> (step \<^verbatim>\<open>numChannels\<close>) and, with step 1, the
  loop of \<^verbatim>\<open>findMaxAbsScalar\<close> and the remainder loops of the two SIMD variants.
  \<^verbatim>\<open>size_t\<close> is modelled by \<open>nat\<close>. The test \<open>0 < step\<close> is not in the source, where the step
  is positive at every call (\<^verbatim>\<open>numChannels > 0\<close> after the entry check, or the constant 1).
\<close>

function stridedMax :: "sample list \<Rightarrow> nat \<Rightarrow> nat \<Rightarrow> nat \<Rightarrow> sample \<Rightarrow> sample" where
  "stridedMax data step endSample i maxAmplitude =
     (if i < endSample \<and> 0 < step
      then stridedMax data step endSample (i + step) (std_max maxAmplitude \<bar>data ! i\<bar>)
      else maxAmplitude)"
  by pat_completeness auto
termination
  by (relation "measure (\<lambda>(data, step, endSample, i, m). endSample - i)") auto

declare stridedMax.simps [simp del]

text \<open>
  Four lanes of a 128-bit register. \<^verbatim>\<open>vld1q_f32\<close> followed by \<^verbatim>\<open>vabsq_f32\<close> (NEON) and
  \<^verbatim>\<open>_mm_loadu_ps\<close> followed by the sign-bit mask (SSE2) both load four consecutive samples
  and clear their signs.
\<close>

type_synonym vec4 = "sample \<times> sample \<times> sample \<times> sample"

definition load_abs :: "sample list \<Rightarrow> nat \<Rightarrow> vec4" where
  "load_abs data i = (\<bar>data ! i\<bar>, \<bar>data ! (i + 1)\<bar>, \<bar>data ! (i + 2)\<bar>, \<bar>data ! (i + 3)\<bar>)"

text \<open>
  One lane of \<^verbatim>\<open>_mm_max_ps(a, b)\<close> (MAXPS): \<^verbatim>\<open>a > b ? a : b\<close>, so the second operand when
  one of the two is a NaN or both are zeros. One lane of \<^verbatim>\<open>vmaxq_f32\<close>, \<^verbatim>\<open>vmax_f32\<close> and
  \<^verbatim>\<open>vpmax_f32\<close> (FMAX, FMAXP): a NaN when one of the two is a NaN, else the larger, the
  positive zero for two zeros of different signs.
\<close>

definition mm_max :: "sample \<Rightarrow> sample \<Rightarrow> sample" where
  "mm_max a b = (if a > b then a else b)"

definition vmax :: "sample \<Rightarrow> sample \<Rightarrow> sample" where
  "vmax a b =
     (if a = NaN \<or> b = NaN then NaN
      else if a < b then b
      else if b < a then a
      else if a = NZero then b else a)"

definition lanes :: "(sample \<Rightarrow> sample \<Rightarrow> sample) \<Rightarrow> vec4 \<Rightarrow> vec4 \<Rightarrow> vec4" where
  "lanes f a b =
     (case a of (a0, a1, a2, a3) \<Rightarrow> case b of (b0, b1, b2, b3) \<Rightarrow>
        (f a0 b0, f a1 b1, f a2 b2, f a3 b3))"

text \<open>\<^verbatim>\<open>for (; i + 4 <= count; i += 4)\<close>, returning the index reached and the register.\<close>

function vecLoop ::
  "(sample \<Rightarrow> sample \<Rightarrow> sample) \<Rightarrow> sample list \<Rightarrow> nat \<Rightarrow> nat \<Rightarrow> vec4 \<Rightarrow> nat \<times> vec4" where
  "vecLoop lane_max data count i maxVec =
     (if i + 4 \<le> count
      then vecLoop lane_max data count (i + 4) (lanes lane_max maxVec (load_abs data i))
      else (i, maxVec))"
  by pat_completeness auto
termination
  by (relation "measure (\<lambda>(f, data, count, i, v). count - i)") auto

declare vecLoop.simps [simp del]

definition findMaxAbsNeon :: "sample list \<Rightarrow> nat \<Rightarrow> sample" where
  "findMaxAbsNeon data count =
     (if count = 0 then 0
      else case vecLoop vmax data count 0 (0, 0, 0, 0) of
        (i, (r0, r1, r2, r3)) \<Rightarrow>
          let max2 = (vmax r0 r2, vmax r1 r3);
              max1 = vmax (fst max2) (snd max2)
          in stridedMax data 1 count i max1)"

definition findMaxAbsSSE2 :: "sample list \<Rightarrow> nat \<Rightarrow> sample" where
  "findMaxAbsSSE2 data count =
     (if count = 0 then 0
      else case vecLoop mm_max data count 0 (0, 0, 0, 0) of
        (i, (r0, r1, r2, r3)) \<Rightarrow>
          let maxVal = std_max (std_max r0 r1) (std_max r2 r3)
          in stridedMax data 1 count i maxVal)"

definition findMaxAbsScalar :: "sample list \<Rightarrow> nat \<Rightarrow> sample" where
  "findMaxAbsScalar data count = stridedMax data 1 count 0 0"

text \<open>Which of \<^verbatim>\<open>HAS_NEON\<close>, \<^verbatim>\<open>HAS_SSE2\<close> or neither the build defines.\<close>

datatype simd = NEON | SSE2 | NoSIMD

definition findMaxAbs :: "simd \<Rightarrow> sample list \<Rightarrow> nat \<Rightarrow> sample" where
  "findMaxAbs isa data count =
     (case isa of NEON \<Rightarrow> findMaxAbsNeon data count
      | SSE2 \<Rightarrow> findMaxAbsSSE2 data count
      | NoSIMD \<Rightarrow> findMaxAbsScalar data count)"

subsection \<open>The environment of a call\<close>

text \<open>
  What a call of \<^verbatim>\<open>processWaveform\<close> reads from outside its arguments:
  \<^item> \<^verbatim>\<open>std::thread::hardware_concurrency()\<close>;
  \<^item> the instruction set the file was compiled for;
  \<^item> the cancellation flag. It is an atomic that other threads write while the call
    runs, so each read has its own value: \<open>cancelAtPixel env p\<close> is what \<^verbatim>\<open>isCancelled()\<close>
    returns at the top of the iteration for pixel \<open>p\<close> (for a null flag pointer it is
    \<open>False\<close>), \<open>cancelAfterJoin env\<close> what it returns after the workers have been joined;
  \<^item> the order in which the operating system lets the workers of the multi-threaded
    path take their steps: \<open>worker_schedule env\<close> lists worker indices, one per step.
\<close>

record proc_env =
  hardware_concurrency :: nat
  simd_isa :: simd
  cancelAtPixel :: "nat \<Rightarrow> bool"
  cancelAfterJoin :: bool
  worker_schedule :: "nat list"

text \<open>\<^verbatim>\<open>reportProgress(processed)\<close> passes this value to the progress callback.\<close>

definition progressOf :: "nat \<Rightarrow> nat \<Rightarrow> real" where
  "progressOf processed numPixels = real processed / real numPixels"

text \<open>
  When a report is due: in the single-threaded loop
  \<^verbatim>\<open>pixel % std::max(numPixels / 10, size_t(1)) == 0 || pixel % 1000 == 0\<close>, in a worker
  \<^verbatim>\<open>processed % std::max(numPixels / 20, size_t(1)) == 0 || processed % 500 == 0\<close>.
\<close>

definition reportDue :: "nat \<Rightarrow> nat \<Rightarrow> bool" where
  "reportDue numPixels pixel = (pixel mod max (numPixels div 10) 1 = 0 \<or> pixel mod 1000 = 0)"

definition reportDueMT :: "nat \<Rightarrow> nat \<Rightarrow> bool" where
  "reportDueMT numPixels processed =
     (processed mod max (numPixels div 20) 1 = 0 \<or> processed mod 500 = 0)"

subsection \<open>The single-threaded path\<close>

text \<open>
  The loop over the channels of one pixel: \<^verbatim>\<open>result[channel][pixel] = maxAmplitude\<close> with the
  strided reduction from \<^verbatim>\<open>startSample\<close> to \<^verbatim>\<open>endSample\<close>.
\<close>

definition channelPeak :: "sample list \<Rightarrow> nat \<Rightarrow> nat \<Rightarrow> nat \<Rightarrow> nat \<Rightarrow> sample" where
  "channelPeak audioData samplesPerPixel numChannels pixel channel =
     (let startSample = pixel * samplesPerPixel * numChannels + channel;
          endSample = min (startSample + samplesPerPixel * numChannels) (length audioData)
      in stridedMax audioData numChannels endSample startSample 0)"

definition storePeak :: "(nat \<Rightarrow> sample) \<Rightarrow> nat \<Rightarrow> nat \<Rightarrow> envelope \<Rightarrow> envelope" where
  "storePeak peak pixel channel result =
     result[channel := (result ! channel)[pixel := peak channel]]"

definition processPixel :: "sample list \<Rightarrow> nat \<Rightarrow> nat \<Rightarrow> nat \<Rightarrow> envelope \<Rightarrow> envelope" where
  "processPixel audioData samplesPerPixel numChannels pixel result =
     fold (storePeak (channelPeak audioData samplesPerPixel numChannels pixel) pixel)
       [0..<numChannels] result"

text \<open>
  The loop over the pixels. \<open>None\<close> is the early \<^verbatim>\<open>return {}\<close> of a cancellation seen at a
  poll; the second component lists the progress values reported so far.
\<close>

function singleLoop ::
  "proc_env \<Rightarrow> sample list \<Rightarrow> nat \<Rightarrow> nat \<Rightarrow> nat \<Rightarrow> nat \<Rightarrow> envelope \<Rightarrow> real list
     \<Rightarrow> envelope option \<times> real list" where
  "singleLoop env audioData samplesPerPixel numChannels numPixels pixel result reported =
     (if pixel < numPixels then
        if pixel mod 100 = 0 \<and> cancelAtPixel env pixel then (None, reported)
        else
          singleLoop env audioData samplesPerPixel numChannels numPixels (pixel + 1)
            (processPixel audioData samplesPerPixel numChannels pixel result)
            (if reportDue numPixels pixel
             then reported @ [progressOf (pixel + 1) numPixels] else reported)
      else (Some result, reported))"
  by pat_completeness auto
termination
  by (relation "measure (\<lambda>(env, a, s, c, numPixels, pixel, r, p). numPixels - pixel)") auto

declare singleLoop.simps [simp del]

subsection \<open>The multi-threaded path\<close>

text \<open>
  A worker is the lambda given to \<^verbatim>\<open>std::async\<close>: its loop variable, the end of its range,
  the value \<^verbatim>\<open>processed\<close> it got from \<^verbatim>\<open>fetch_add\<close> while the report for it is still to be
  decided, and whether it has returned. The workers share \<^verbatim>\<open>result\<close>, the atomic
  counter \<^verbatim>\<open>pixelsProcessed\<close> and the progress callback.
\<close>

record worker =
  w_pixel :: nat
  w_endPixel :: nat
  w_processed :: "nat option"
  w_returned :: bool

record pool =
  p_result :: envelope
  pixelsProcessed :: nat
  p_reported :: "real list"
  p_workers :: "worker list"

text \<open>The value stored for one channel of a pixel by a worker: SIMD for mono.\<close>

definition channelPeakMT :: "simd \<Rightarrow> sample list \<Rightarrow> nat \<Rightarrow> nat \<Rightarrow> nat \<Rightarrow> nat \<Rightarrow> sample" where
  "channelPeakMT isa audioData samplesPerPixel numChannels pixel channel =
     (let startSample = pixel * samplesPerPixel * numChannels + channel;
          endSample = min (startSample + samplesPerPixel * numChannels) (length audioData)
      in if numChannels = 1
         then findMaxAbs isa (drop startSample audioData) (endSample - startSample)
         else stridedMax audioData numChannels endSample startSample 0)"

definition processPixelMT ::
  "simd \<Rightarrow> sample list \<Rightarrow> nat \<Rightarrow> nat \<Rightarrow> nat \<Rightarrow> envelope \<Rightarrow> envelope" where
  "processPixelMT isa audioData samplesPerPixel numChannels pixel result =
     fold (storePeak (channelPeakMT isa audioData samplesPerPixel numChannels pixel) pixel)
       [0..<numChannels] result"

text \<open>
  One step of worker \<open>t\<close>. A step is a part of the loop body that other workers cannot
  split in a way that shows: (a) the poll, the reduction of one pixel (the workers store
  into different cells) and the \<^verbatim>\<open>fetch_add\<close>; (b) the test of \<^verbatim>\<open>processed\<close> and the call of
  the callback, followed by \<^verbatim>\<open>++pixel\<close>; (c) leaving the loop.
\<close>

definition workerStep ::
  "proc_env \<Rightarrow> sample list \<Rightarrow> nat \<Rightarrow> nat \<Rightarrow> nat \<Rightarrow> nat \<Rightarrow> pool \<Rightarrow> pool" where
  "workerStep env audioData samplesPerPixel numChannels numPixels t pl =
     (if length (p_workers pl) \<le> t then pl
      else
        let w = p_workers pl ! t in
        if w_returned w then pl
        else case w_processed w of
          Some processed \<Rightarrow>
            pl\<lparr>p_reported :=
                 (if reportDueMT numPixels processed
                  then p_reported pl @ [progressOf processed numPixels] else p_reported pl),
               p_workers :=
                 (p_workers pl)[t := w\<lparr>w_processed := None, w_pixel := w_pixel w + 1\<rparr>]\<rparr>
        | None \<Rightarrow>
            if w_pixel w < w_endPixel w then
              if w_pixel w mod 100 = 0 \<and> cancelAtPixel env (w_pixel w)
              then pl\<lparr>p_workers := (p_workers pl)[t := w\<lparr>w_returned := True\<rparr>]\<rparr>
              else
                pl\<lparr>p_result :=
                     processPixelMT (simd_isa env) audioData samplesPerPixel numChannels
                       (w_pixel w) (p_result pl),
                   pixelsProcessed := pixelsProcessed pl + 1,
                   p_workers :=
                     (p_workers pl)[t := w\<lparr>w_processed := Some (pixelsProcessed pl + 1)\<rparr>]\<rparr>
            else pl\<lparr>p_workers := (p_workers pl)[t := w\<lparr>w_returned := True\<rparr>]\<rparr>)"

text \<open>Worker \<open>t\<close> as \<^verbatim>\<open>std::async\<close> starts it.\<close>

definition startWorker :: "nat \<Rightarrow> nat \<Rightarrow> nat \<Rightarrow> worker" where
  "startWorker pixelsPerThread numPixels t =
     (let startPixel = t * pixelsPerThread;
          endPixel = min (startPixel + pixelsPerThread) numPixels
      in \<lparr>w_pixel = startPixel, w_endPixel = endPixel, w_processed = None, w_returned = False\<rparr>)"

text \<open>
  \<^verbatim>\<open>future.wait()\<close> for every worker: the workers take steps in the order of the schedule;
  once the schedule is used up, each worker that has not returned runs to its end (a
  worker needs at most \<open>2 * pixelsPerThread + 1\<close> steps). Every interleaving of the workers'
  steps is the run of some schedule.
\<close>

definition joinSteps :: "nat \<Rightarrow> nat \<Rightarrow> nat list" where
  "joinSteps numThreads pixelsPerThread =
     concat (map (replicate (2 * pixelsPerThread + 1)) [0..<numThreads])"

definition runWorkers ::
  "proc_env \<Rightarrow> sample list \<Rightarrow> nat \<Rightarrow> nat \<Rightarrow> nat \<Rightarrow> nat \<Rightarrow> envelope \<Rightarrow> pool" where
  "runWorkers env audioData samplesPerPixel numChannels numPixels numThreads result =
     (let pixelsPerThread = (numPixels + numThreads - 1) div numThreads;
          started = \<lparr>p_result = result, pixelsProcessed = 0, p_reported = [],
                     p_workers = map (startWorker pixelsPerThread numPixels) [0..<numThreads]\<rparr>
      in fold (workerStep env audioData samplesPerPixel numChannels numPixels)
           (worker_schedule env @ joinSteps numThreads pixelsPerThread) started)"

subsection \<open>processWaveform\<close>

text \<open>
  The function returns the envelope; the model returns with it the list of the values
  passed to \<^verbatim>\<open>reportProgress\<close>, in the order of the calls (they reach the callback when one
  is given). \<^verbatim>\<open>int\<close> arguments are \<open>int\<close>; after the entry check they are positive and are
  used as \<^verbatim>\<open>size_t\<close>. The product \<^verbatim>\<open>samplesPerPixel * numChannels\<close> is a product of two
  \<^verbatim>\<open>int\<close>s: when it does not fit \<^verbatim>\<open>int\<close> the behaviour of the C++ function is undefined, and
  the model, which takes the product in the integers, describes the calls for which it
  fits (\<open>int_product_fits\<close> below; the facts that depend on the values computed assume
  it). The other products and sums are taken in \<^verbatim>\<open>size_t\<close> and stay below twice the
  length of the buffer.
\<close>

definition processWaveform ::
  "proc_env \<Rightarrow> sample list \<Rightarrow> int \<Rightarrow> int \<Rightarrow> envelope \<times> real list" where
  "processWaveform env audioData samplesPerPixel numChannels =
     (if audioData = [] \<or> samplesPerPixel \<le> 0 \<or> numChannels \<le> 0 then ([], [])
      else
        let totalSamples = length audioData;
            numPixels = totalSamples div nat samplesPerPixel div nat numChannels
        in
        if numPixels = 0 then ([], [])
        else
          let result = replicate (nat numChannels) (replicate numPixels 0);
              numThreads = min (hardware_concurrency env) numPixels
          in
          if numThreads \<le> 1 then
            (case singleLoop env audioData (nat samplesPerPixel) (nat numChannels) numPixels
                    0 result [] of
               (None, reported) \<Rightarrow> ([], reported)
             | (Some filled, reported) \<Rightarrow> (filled, reported @ [progressOf numPixels numPixels]))
          else
            let pl = runWorkers env audioData (nat samplesPerPixel) (nat numChannels)
                       numPixels numThreads result
            in
            if cancelAfterJoin env then ([], p_reported pl)
            else (p_result pl, p_reported pl @ [progressOf numPixels numPixels]))"

text \<open>
  The specification's envelope, written from its words:
  \<open>env[c][b] = max over k in [0, S) of \<bar>pcm[b * S * C + k * C + c]\<bar>\<close>, for \<open>C\<close> channels and
  \<open>B = \<lfloor>N / (S * C)\<rfloor>\<close> buckets. The maximum is the maximum of the numbers the samples
  stand for, so it is defined for the buckets that hold no NaN.
\<close>

definition spec_peak :: "sample list \<Rightarrow> nat \<Rightarrow> nat \<Rightarrow> nat \<Rightarrow> nat \<Rightarrow> sample" where
  "spec_peak pcm S C b c =
     Num (Max ((\<lambda>k. magnitude (pcm ! (b * S * C + k * C + c))) ` {0..<S}))"

definition spec_envelope :: "sample list \<Rightarrow> nat \<Rightarrow> nat \<Rightarrow> envelope" where
  "spec_envelope pcm S C =
     map (\<lambda>c. map (\<lambda>b. spec_peak pcm S C b c) [0..<length pcm div (S * C)]) [0..<C]"

text \<open>
  A register whose four lanes hold numbers, and the largest of the four (used to state
  what the SIMD loops compute on samples that are not NaNs).
\<close>

definition vnum :: "xreal \<times> xreal \<times> xreal \<times> xreal \<Rightarrow> vec4" where
  "vnum w = (case w of (w0, w1, w2, w3) \<Rightarrow> (Num w0, Num w1, Num w2, Num w3))"

definition max4 :: "xreal \<times> xreal \<times> xreal \<times> xreal \<Rightarrow> xreal" where
  "max4 w = (case w of (w0, w1, w2, w3) \<Rightarrow> max (max w0 w1) (max w2 w3))"

subsection \<open>Notions used to state the facts below\<close>

text \<open>An envelope of \<open>C\<close> channels with \<open>B\<close> buckets each.\<close>

definition shaped :: "nat \<Rightarrow> nat \<Rightarrow> envelope \<Rightarrow> bool" where
  "shaped C B r = (length r = C \<and> (\<forall>c<C. length (r ! c) = B))"

text \<open>The pixels of its range that a worker has stored: those below \<open>covered w\<close>.\<close>

definition covered :: "worker \<Rightarrow> nat" where
  "covered w = (case w_processed w of None \<Rightarrow> w_pixel w | Some k \<Rightarrow> w_pixel w + 1)"

text \<open>Worker \<open>t\<close> stays inside the range it was started with.\<close>

definition worker_ok :: "nat \<Rightarrow> nat \<Rightarrow> nat \<Rightarrow> worker \<Rightarrow> bool" where
  "worker_ok ppt B t w =
     (w_endPixel w = min (t * ppt + ppt) B \<and> t * ppt \<le> w_pixel w
      \<and> (w_processed w \<noteq> None \<longrightarrow> w_pixel w < w_endPixel w))"

text \<open>The cells of the pixels from \<open>lo\<close> up to \<open>hi\<close> hold the values a worker stores in them.\<close>

definition cells_ok ::
  "simd \<Rightarrow> sample list \<Rightarrow> nat \<Rightarrow> nat \<Rightarrow> nat \<Rightarrow> envelope \<Rightarrow> nat \<Rightarrow> nat \<Rightarrow> bool" where
  "cells_ok isa a S C B r lo hi =
     (\<forall>p. lo \<le> p \<and> p < hi \<and> p < B \<longrightarrow> (\<forall>c<C. r ! c ! p = channelPeakMT isa a S C p c))"

text \<open>The invariant of the workers' steps.\<close>

definition pool_inv ::
  "simd \<Rightarrow> sample list \<Rightarrow> nat \<Rightarrow> nat \<Rightarrow> nat \<Rightarrow> nat \<Rightarrow> nat \<Rightarrow> pool \<Rightarrow> bool" where
  "pool_inv isa a S C B ppt n pl =
     (shaped C B (p_result pl) \<and> length (p_workers pl) = n
      \<and> (\<forall>t<n. worker_ok ppt B t (p_workers pl ! t)
               \<and> cells_ok isa a S C B (p_result pl) (t * ppt) (covered (p_workers pl ! t))))"

text \<open>No poll of the pixel loops reads the flag as set.\<close>

definition never_polled_set :: "proc_env \<Rightarrow> nat \<Rightarrow> bool" where
  "never_polled_set env B = (\<forall>p<B. p mod 100 = 0 \<longrightarrow> \<not> cancelAtPixel env p)"

text \<open>A worker that returned did so at the end of its range.\<close>

definition ran_out :: "worker \<Rightarrow> bool" where
  "ran_out w = (w_returned w \<longrightarrow> w_endPixel w \<le> w_pixel w \<and> w_processed w = None)"

text \<open>A bound on the steps a worker still takes.\<close>

definition todo :: "worker \<Rightarrow> nat" where
  "todo w =
     (if w_returned w then 0
      else case w_processed w of
             None \<Rightarrow> 2 * (w_endPixel w - w_pixel w) + 1
           | Some k \<Rightarrow> 2 * (w_endPixel w - w_pixel w - 1) + 2)"

text \<open>\<^verbatim>\<open>numPixels\<close> as \<^verbatim>\<open>processWaveform\<close> computes it, and its two early \<^verbatim>\<open>return {}\<close>.\<close>

definition numPixelsOf :: "sample list \<Rightarrow> int \<Rightarrow> int \<Rightarrow> nat" where
  "numPixelsOf audioData samplesPerPixel numChannels =
     length audioData div nat samplesPerPixel div nat numChannels"

definition rejected :: "sample list \<Rightarrow> int \<Rightarrow> int \<Rightarrow> bool" where
  "rejected audioData samplesPerPixel numChannels =
     (audioData = [] \<or> samplesPerPixel \<le> 0 \<or> numChannels \<le> 0
      \<or> numPixelsOf audioData samplesPerPixel numChannels = 0)"


definition nan_free :: "sample list \<Rightarrow> int \<Rightarrow> int \<Rightarrow> bool" where
  "nan_free pcm S C =
     (NaN \<notin> set (take (length pcm div (nat S * nat C) * (nat S * nat C)) pcm))"

text \<open>A call during which the flag is never read as set (a null flag pointer, for one).\<close>

definition not_cancelled :: "proc_env \<Rightarrow> bool" where
  "not_cancelled env = ((\<forall>p. \<not> cancelAtPixel env p) \<and> \<not> cancelAfterJoin env)"

text \<open>The same call with a flag that is never set.\<close>

definition uncancelled :: "proc_env \<Rightarrow> proc_env" where
  "uncancelled env = env\<lparr>cancelAtPixel := (\<lambda>p. False), cancelAfterJoin := False\<rparr>"




definition env_single :: proc_env where
  "env_single = \<lparr>hardware_concurrency = 1, simd_isa = NoSIMD, cancelAtPixel = (\<lambda>p. False),
            cancelAfterJoin = False, worker_schedule = []\<rparr>"


section \<open>WaveformExtractorBase::extract\<close>

text \<open>
  \<^verbatim>\<open>std::exception\<close> objects are modelled by their message. \<^verbatim>\<open>decodeAudioData\<close> is pure
  virtual: the platform's decoder is a parameter, a function from the config string to
  the samples it returns or the exception it throws.
\<close>

type_synonym std_exception = string

type_synonym decoder = "string \<Rightarrow> std_exception + sample list"

text \<open>
  The state of the extractor that a run writes: the atomic \<^verbatim>\<open>progress_\<close> (the field
  \<open>progress_field\<close>: a name cannot end with an underscore here) and, in the order
  of the calls, the values passed to the progress callback (\<^verbatim>\<open>invokeProgressCallback\<close> calls
  it when one is set; the model takes one to be set).
\<close>

record extractor_state =
  progress_field :: real
  delivered :: "real list"

definition updateProgress :: "real \<Rightarrow> extractor_state \<Rightarrow> extractor_state" where
  "updateProgress progress st =
     (let p1 = (if progress < 0 then 0 else progress);
          p2 = (if p1 > 1 then 1 else p1)
      in st\<lparr>progress_field := p2, delivered := delivered st @ [p2]\<rparr>)"

text \<open>The \<^verbatim>\<open>progressMapper\<close> lambda of \<^verbatim>\<open>WaveformExtractorBase::processWaveform\<close>.\<close>

definition progressMapper :: "real \<Rightarrow> extractor_state \<Rightarrow> extractor_state" where
  "progressMapper processorProgress st = updateProgress (0.5 + processorProgress * 0.3) st"

text \<open>
  What a run reads from outside: the value of \<^verbatim>\<open>cancelled_\<close> at each of the four
  \<^verbatim>\<open>isCancelled()\<close> checks of \<^verbatim>\<open>extract\<close> (other threads call \<^verbatim>\<open>cancel()\<close> while it runs), and
  the environment of the \<^verbatim>\<open>processWaveform\<close> call, which polls the same flag.
\<close>

record extract_env =
  cancelledBeforeDecode :: bool
  cancelledAfterDecode :: bool
  processing :: proc_env
  cancelledAfterProcess :: bool
  cancelledAfterNormalize :: bool

text \<open>
  The body of the lambda that \<^verbatim>\<open>extract\<close> runs. The result is what the future holds, an
  exception (\<open>Inl\<close>) or the envelope, with the state the run leaves. The run starts from
  \<^verbatim>\<open>resetCancellation(); progress_.store(0.0)\<close>; the only exception of the model is the
  decoder's, which passes through the \<^verbatim>\<open>catch\<close> block (\<^verbatim>\<open>progress_.store(0.0); throw\<close>).
  (\<open>extract\<close> is a keyword of Isabelle, hence the name.)
\<close>

definition extract_run ::
  "decoder \<Rightarrow> extract_env \<Rightarrow> string \<Rightarrow> (std_exception + envelope) \<times> extractor_state" where
  "extract_run decodeAudioData env config =
     (let st0 = \<lparr>progress_field = 0, delivered = []\<rparr>;
          st1 = updateProgress 0.1 st0
      in
      if cancelledBeforeDecode env then (Inr [], updateProgress 0.0 st1)
      else
        case decodeAudioData config of
          Inl e \<Rightarrow> (Inl e, st1\<lparr>progress_field := 0\<rparr>)
        | Inr audioData \<Rightarrow>
            if cancelledAfterDecode env then (Inr [], updateProgress 0.0 st1)
            else
              let st2 = updateProgress 0.5 st1;
                  samplesPerPixel = 100;
                  numChannels = 2;
                  processed = processWaveform (processing env) audioData samplesPerPixel numChannels;
                  waveform = fst processed;
                  st3 = fold progressMapper (snd processed) st2
              in
              if cancelledAfterProcess env then (Inr [], updateProgress 0.0 st3)
              else
                let st4 = updateProgress 0.8 st3;
                    normalize = True;
                    scale = 1;
                    threshold = 0;
                    waveform = (if normalize then normalizeWaveform waveform scale threshold
                                else waveform)
                in
                if cancelledAfterNormalize env then (Inr [], updateProgress 0.0 st4)
                else (Inr waveform, updateProgress 1.0 st4))"

text \<open>A run during which no read of the flag finds it set.\<close>

definition run_not_cancelled :: "extract_env \<Rightarrow> bool" where
  "run_not_cancelled env =
     (\<not> cancelledBeforeDecode env \<and> \<not> cancelledAfterDecode env \<and> not_cancelled (processing env)
      \<and> \<not> cancelledAfterProcess env \<and> \<not> cancelledAfterNormalize env)"

text \<open>Environments and a decoder for concrete runs.\<close>

definition env_dual :: proc_env where
  "env_dual = \<lparr>hardware_concurrency = 2, simd_isa = NEON, cancelAtPixel = (\<lambda>p. False),
              cancelAfterJoin = False, worker_schedule = [0, 1, 1, 0]\<rparr>"

definition run_env :: "proc_env \<Rightarrow> extract_env" where
  "run_env penv = \<lparr>cancelledBeforeDecode = False, cancelledAfterDecode = False,
                   processing = penv, cancelledAfterProcess = False,
                   cancelledAfterNormalize = False\<rparr>"

definition tone :: "nat \<Rightarrow> sample list" where
  "tone n = map (\<lambda>i. if even i then Fin (1 / 2) else Fin (- 1 / 4)) [0..<n]"

definition decode_tone :: decoder where
  "decode_tone config = (if config = ''broken'' then Inl ''decode failed'' else Inr (tone 400))"

text \<open>
  Two cores; the flag is read as set by the poll of pixel 0 and as clear after the join
  (\<^verbatim>\<open>resetCancellation()\<close> is public and may run on another thread in between).
\<close>

definition env_unlatched :: proc_env where
  "env_unlatched = \<lparr>hardware_concurrency = 2, simd_isa = NoSIMD, cancelAtPixel = (\<lambda>p. p = 0),
              cancelAfterJoin = False, worker_schedule = []\<rparr>"

text \<open>The state of a run of \<^verbatim>\<open>extract\<close> when \<^verbatim>\<open>processWaveform\<close> has returned.\<close>

definition afterProcessing :: "extract_env \<Rightarrow> sample list \<Rightarrow> extractor_state" where
  "afterProcessing env audioData =
     fold progressMapper (snd (processWaveform (processing env) audioData 100 2))
       (updateProgress 0.5 (updateProgress 0.1 \<lparr>progress_field = 0, delivered = []\<rparr>))"

section \<open>AudioWaveformFactoryImpl\<close>

text \<open>
  A registered player, as far as the factory uses it: what \<^verbatim>\<open>player->isPlaying()\<close> does when
  called (it throws or returns), and what \<^verbatim>\<open>player->stop()\<close> does: it throws, returns a null
  promise pointer, or returns a promise whose \<^verbatim>\<open>get()\<close> returns a \<^verbatim>\<open>bool\<close> or throws. Both
  are pure virtual, implemented by the platform. Exceptions are \<^verbatim>\<open>std::exception\<close>s, the
  ones the \<^verbatim>\<open>catch\<close> clauses of the factory name.
\<close>

datatype stop_result =
  StopThrows std_exception
| StopNullPromise
| StopResolved bool
| StopRejected std_exception

record player =
  isPlaying :: "std_exception + bool"
  stop :: stop_result

text \<open>A registered extractor: its \<^verbatim>\<open>cancelled_\<close> flag, which \<^verbatim>\<open>cancel()\<close> sets.\<close>

record extractor =
  cancelled_flag :: bool

definition cancel :: "extractor \<Rightarrow> extractor" where
  "cancel e = e\<lparr>cancelled_flag := True\<rparr>"

text \<open>
  The two \<^verbatim>\<open>std::unordered_map\<close>s, as association lists with one entry per key; the order
  of a list stands for the iteration order of the map. \<^verbatim>\<open>find\<close> is \<open>map_of\<close>, \<^verbatim>\<open>size()\<close> is
  \<open>length\<close>, \<^verbatim>\<open>m[key] = v\<close> is \<open>AList.update\<close>, \<^verbatim>\<open>erase\<close> is \<open>AList.delete\<close>. Stored pointers are
  never null: \<^verbatim>\<open>createPlayer\<close> and \<^verbatim>\<open>createExtractor\<close> store only what they have tested.
\<close>

record factory =
  players :: "(string \<times> player) list"
  extractors :: "(string \<times> extractor) list"

definition new_factory :: factory where
  "new_factory = \<lparr>players = [], extractors = []\<rparr>"

text \<open>
  The platform's \<^verbatim>\<open>createPlatformPlayer\<close> and \<^verbatim>\<open>createPlatformExtractor\<close> (pure virtual):
  they throw, return null (\<open>None\<close>) or return an instance.
\<close>

record platform =
  createPlatformPlayer :: "string \<Rightarrow> std_exception + player option"
  createPlatformExtractor :: "string \<Rightarrow> std_exception + extractor option"

text \<open>
  The \<^verbatim>\<open>std::runtime_error\<close>s of the factory, by their messages: \<^verbatim>\<open>Player with key '...' already
  exists\<close>, \<^verbatim>\<open>Maximum number of players (30) reached\<close>, \<^verbatim>\<open>Failed to create AudioPlayer instance
  for key '...'\<close>, the two of \<^verbatim>\<open>createExtractor\<close>, and an exception of the platform passing
  through.
\<close>

datatype factory_error =
  PlayerExists string
| MaxPlayersReached
| PlayerCreateFailed string
| ExtractorExists string
| ExtractorCreateFailed string
| PlatformThrew std_exception

definition MAX_PLAYERS :: nat where
  "MAX_PLAYERS = 30"

text \<open>Each operation returns its result with the factory it leaves.\<close>

definition createPlayer ::
  "platform \<Rightarrow> string \<Rightarrow> factory \<Rightarrow> (factory_error + player) \<times> factory" where
  "createPlayer pf key f =
     (if map_of (players f) key \<noteq> None then (Inl (PlayerExists key), f)
      else if length (players f) \<ge> MAX_PLAYERS then (Inl MaxPlayersReached, f)
      else case createPlatformPlayer pf key of
        Inl e \<Rightarrow> (Inl (PlatformThrew e), f)
      | Inr None \<Rightarrow> (Inl (PlayerCreateFailed key), f)
      | Inr (Some p) \<Rightarrow> (Inr p, f\<lparr>players := AList.update key p (players f)\<rparr>))"

definition createExtractor ::
  "platform \<Rightarrow> string \<Rightarrow> factory \<Rightarrow> (factory_error + extractor) \<times> factory" where
  "createExtractor pf key f =
     (if map_of (extractors f) key \<noteq> None then (Inl (ExtractorExists key), f)
      else case createPlatformExtractor pf key of
        Inl e \<Rightarrow> (Inl (PlatformThrew e), f)
      | Inr None \<Rightarrow> (Inl (ExtractorCreateFailed key), f)
      | Inr (Some x) \<Rightarrow> (Inr x, f\<lparr>extractors := AList.update key x (extractors f)\<rparr>))"

definition removePlayer :: "string \<Rightarrow> factory \<Rightarrow> bool \<times> factory" where
  "removePlayer key f =
     (if map_of (players f) key \<noteq> None
      then (True, f\<lparr>players := AList.delete key (players f)\<rparr>)
      else (False, f))"

definition removeExtractor :: "string \<Rightarrow> factory \<Rightarrow> bool \<times> factory" where
  "removeExtractor key f =
     (if map_of (extractors f) key \<noteq> None
      then (True, f\<lparr>extractors := AList.delete key (extractors f)\<rparr>)
      else (False, f))"

definition getPlayerCount :: "factory \<Rightarrow> nat" where
  "getPlayerCount f = length (players f)"

definition getExtractorCount :: "factory \<Rightarrow> nat" where
  "getExtractorCount f = length (extractors f)"

definition hasPlayer :: "string \<Rightarrow> factory \<Rightarrow> bool" where
  "hasPlayer key f = (map_of (players f) key \<noteq> None)"

definition hasExtractor :: "string \<Rightarrow> factory \<Rightarrow> bool" where
  "hasExtractor key f = (map_of (extractors f) key \<noteq> None)"

text \<open>
  The body of the loop of \<^verbatim>\<open>stopAllPlayers\<close> for one entry, the \<^verbatim>\<open>try\<close> block with its
  \<^verbatim>\<open>catch\<close>: the state is \<^verbatim>\<open>allStopped\<close> and, for the model, the keys of the players whose
  \<^verbatim>\<open>stop()\<close> has been called.
\<close>

definition stopOne :: "string \<times> player \<Rightarrow> bool \<times> string list \<Rightarrow> bool \<times> string list" where
  "stopOne entry acc =
     (case acc of (allStopped, called) \<Rightarrow>
      case entry of (key, p) \<Rightarrow>
        (case isPlaying p of
           Inl e \<Rightarrow> (False, called)
         | Inr False \<Rightarrow> (allStopped, called)
         | Inr True \<Rightarrow>
             (case stop p of
                StopThrows e \<Rightarrow> (False, called @ [key])
              | StopNullPromise \<Rightarrow> (allStopped, called @ [key])
              | StopResolved result \<Rightarrow> (if \<not> result then False else allStopped, called @ [key])
              | StopRejected e \<Rightarrow> (False, called @ [key]))))"

text \<open>The value of the future, the keys whose \<^verbatim>\<open>stop()\<close> was called, the factory left.\<close>

definition stopAllPlayers :: "factory \<Rightarrow> bool \<times> string list \<times> factory" where
  "stopAllPlayers f =
     (case fold stopOne (players f) (True, []) of
        (allStopped, called) \<Rightarrow> (allStopped, called, f\<lparr>players := []\<rparr>))"

text \<open>
  The loop of \<^verbatim>\<open>stopAllExtractors\<close> for one entry. \<^verbatim>\<open>WaveformExtractorBase::cancel\<close> is not
  virtual and cannot throw; to state what the \<^verbatim>\<open>catch\<close> block would do, the loop is written
  over any outcome of the call, and \<open>stopAllExtractors\<close> is the loop with \<open>cancel\<close>. The
  result holds the value of the future, the handles as their other owners see them after
  the loop, and the factory left.
\<close>

definition cancelOne ::
  "(extractor \<Rightarrow> std_exception + extractor) \<Rightarrow> string \<times> extractor \<Rightarrow> string \<times> extractor" where
  "cancelOne tryCancel entry =
     (case entry of (key, x) \<Rightarrow>
        (case tryCancel x of Inl e \<Rightarrow> (key, x) | Inr x' \<Rightarrow> (key, x')))"

definition stopAllExtractorsWith ::
  "(extractor \<Rightarrow> std_exception + extractor) \<Rightarrow> factory
     \<Rightarrow> bool \<times> (string \<times> extractor) list \<times> factory" where
  "stopAllExtractorsWith tryCancel f =
     (True, map (cancelOne tryCancel) (extractors f), f\<lparr>extractors := []\<rparr>)"

definition stopAllExtractors :: "factory \<Rightarrow> bool \<times> (string \<times> extractor) list \<times> factory" where
  "stopAllExtractors f = stopAllExtractorsWith (\<lambda>x. Inr (cancel x)) f"

text \<open>Sequences of operations on a factory.\<close>

datatype factory_op =
  CreatePlayer string
| RemovePlayer string
| StopAllPlayers
| CreateExtractor string
| RemoveExtractor string
| StopAllExtractors

fun apply_op :: "platform \<Rightarrow> factory_op \<Rightarrow> factory \<Rightarrow> factory" where
  "apply_op pf (CreatePlayer key) f = snd (createPlayer pf key f)"
| "apply_op pf (RemovePlayer key) f = snd (removePlayer key f)"
| "apply_op pf StopAllPlayers f = snd (snd (stopAllPlayers f))"
| "apply_op pf (CreateExtractor key) f = snd (createExtractor pf key f)"
| "apply_op pf (RemoveExtractor key) f = snd (removeExtractor key f)"
| "apply_op pf StopAllExtractors f = snd (snd (stopAllExtractors f))"

definition run_ops :: "platform \<Rightarrow> factory_op list \<Rightarrow> factory \<Rightarrow> factory" where
  "run_ops pf ops f = fold (apply_op pf) ops f"

text \<open>What the claims call a stop that completed cleanly, and a platform and players for concrete runs.\<close>

definition stop_clean :: "stop_result \<Rightarrow> bool" where
  "stop_clean r = (case r of StopNullPromise \<Rightarrow> True | StopResolved b \<Rightarrow> b | _ \<Rightarrow> False)"

definition idle_player :: player where
  "idle_player = \<lparr>isPlaying = Inr False, stop = StopResolved True\<rparr>"

definition playing_player :: player where
  "playing_player = \<lparr>isPlaying = Inr True, stop = StopResolved True\<rparr>"

definition stuck_player :: player where
  "stuck_player = \<lparr>isPlaying = Inr True, stop = StopResolved False\<rparr>"

definition broken_player :: player where
  "broken_player = \<lparr>isPlaying = Inl ''player released'', stop = StopResolved True\<rparr>"

definition test_platform :: platform where
  "test_platform = \<lparr>createPlatformPlayer = (\<lambda>key. Inr (Some idle_player)),
                     createPlatformExtractor = (\<lambda>key. Inr (Some \<lparr>cancelled_flag = False\<rparr>))\<rparr>"

definition thirty_keys :: "string list" where
  "thirty_keys =
     [''p0'', ''p1'', ''p2'', ''p3'', ''p4'', ''p5'', ''p6'', ''p7'', ''p8'', ''p9'',
      ''p10'', ''p11'', ''p12'', ''p13'', ''p14'', ''p15'', ''p16'', ''p17'', ''p18'', ''p19'',
      ''p20'', ''p21'', ''p22'', ''p23'', ''p24'', ''p25'', ''p26'', ''p27'', ''p28'', ''p29'']"

definition full_factory :: factory where
  "full_factory = run_ops test_platform (map CreatePlayer thirty_keys) new_factory"


text \<open>
  An entry that leaves \<^verbatim>\<open>allStopped\<close> as it is: \<^verbatim>\<open>isPlaying()\<close> returned, and if it returned
  true the stop completed cleanly.
\<close>

definition entry_clean :: "string \<times> player \<Rightarrow> bool" where
  "entry_clean entry =
     (case entry of (key, p) \<Rightarrow>
        (case isPlaying p of Inl e \<Rightarrow> False | Inr b \<Rightarrow> \<not> b \<or> stop_clean (stop p)))"

definition reports_playing :: "string \<times> player \<Rightarrow> bool" where
  "reports_playing entry = (case entry of (key, p) \<Rightarrow> isPlaying p = Inr True)"

definition mixed_factory :: factory where
  "mixed_factory =
     \<lparr>players = [(''a'', playing_player), (''b'', stuck_player), (''c'', idle_player)],
      extractors = [(''x'', \<lparr>cancelled_flag = False\<rparr>), (''y'', \<lparr>cancelled_flag = True\<rparr>)]\<rparr>"

definition broken_factory :: factory where
  "broken_factory = \<lparr>players = [(''a'', broken_player), (''c'', idle_player)], extractors = []\<rparr>"


text \<open>The invariant of the player map: one entry per key, at most 30 entries.\<close>

definition players_ok :: "factory \<Rightarrow> bool" where
  "players_ok f = (distinct (map fst (players f)) \<and> length (players f) \<le> MAX_PLAYERS)"

text \<open>
  The pixels the workers have counted, and the invariant that ties the atomic counter,
  the counts that wait for their report and the values reported to it.
\<close>

definition counted :: "nat \<Rightarrow> worker list \<Rightarrow> nat" where
  "counted ppt ws = (\<Sum>t<length ws. covered (ws ! t) - t * ppt)"

definition count_inv :: "nat \<Rightarrow> nat \<Rightarrow> pool \<Rightarrow> bool" where
  "count_inv ppt B pl =
     (pixelsProcessed pl = counted ppt (p_workers pl)
      \<and> (\<forall>t<length (p_workers pl).
            covered (p_workers pl ! t) - t * ppt \<le> w_endPixel (p_workers pl ! t) - t * ppt
            \<and> (\<forall>k. w_processed (p_workers pl ! t) = Some k \<longrightarrow> 1 \<le> k \<and> k \<le> pixelsProcessed pl))
      \<and> (\<forall>r \<in> set (p_reported pl). \<exists>k. 1 \<le> k \<and> k \<le> pixelsProcessed pl \<and> r = progressOf k B))"

section \<open>Facts about the arithmetic of float\<close>

lemma xreal_le_simps [simp]:
  "Real a \<le> Real b \<longleftrightarrow> a \<le> b"
  "MInfty \<le> x"
  "x \<le> PInfty"
  "\<not> Real a \<le> MInfty"
  "\<not> PInfty \<le> Real a"
  "\<not> PInfty \<le> MInfty"
  by (simp_all add: less_eq_xreal_def split: xreal.split)

lemma xreal_less_simps [simp]:
  "Real a < Real b \<longleftrightarrow> a < b"
  "MInfty < Real a"
  "Real a < PInfty"
  "MInfty < PInfty"
  "\<not> x < MInfty"
  "\<not> PInfty < x"
  by (auto simp: less_xreal_def less_eq_xreal_def split: xreal.split)

lemma xabs_nonneg [simp]: "Real 0 \<le> xabs x"
  by (cases x) simp_all

lemma abs_float_simps [simp]:
  "\<bar>NaN\<bar> = NaN" "\<bar>NZero\<bar> = Fin 0" "\<bar>Num x\<bar> = Num (xabs x)"
  by (simp_all add: abs_float_def)

lemma float_le_simps [simp]:
  "Num a \<le> Num b \<longleftrightarrow> a \<le> b"
  "\<not> NaN \<le> x" "\<not> x \<le> NaN"
  "NZero \<le> Num b \<longleftrightarrow> Real 0 \<le> b"
  "Num a \<le> NZero \<longleftrightarrow> a \<le> Real 0"
  "NZero \<le> NZero"
  by (simp_all add: less_eq_float_def)

lemma float_less_simps [simp]:
  "Num a < Num b \<longleftrightarrow> a < b"
  "\<not> NaN < x" "\<not> x < NaN"
  "NZero < Num b \<longleftrightarrow> Real 0 < b"
  "Num a < NZero \<longleftrightarrow> a < Real 0"
  "\<not> NZero < NZero"
  by (simp_all add: less_float_def)

lemma float_less_irrefl [simp]: "\<not> (a::float) < a"
  by (simp add: less_float_def)

lemma magnitude_simps [simp]:
  "magnitude (Num x) = xabs x" "magnitude NZero = Real 0" "magnitude NaN = Real 0"
  by (simp_all add: magnitude_def)

lemma magnitude_nonneg [simp]: "Real 0 \<le> magnitude s"
  by (cases s) simp_all

lemma abs_eq_Num: "x \<noteq> NaN \<Longrightarrow> \<bar>x\<bar> = Num (magnitude x)"
  by (cases x) simp_all

lemma le_abs_not_NaN: "t \<le> \<bar>x\<bar> \<Longrightarrow> x \<noteq> NaN"
  by (cases x) simp_all

lemma std_max_Num: "std_max (Num a) (Num b) = Num (max a b)"
  by (auto simp: std_max_def max_def)

lemma finite_floatE:
  assumes "finite_float a"
  obtains "a = NZero" | r where "a = Fin r"
  using assms by (auto simp: finite_float_def split: float.splits xreal.splits)

lemma finite_float_iff: "finite_float a \<longleftrightarrow> a = NZero \<or> (\<exists>r. a = Fin r)"
  by (auto simp: finite_float_def split: float.splits xreal.splits)

lemma with_sign_Real:
  assumes "0 \<le> r"
  shows "finite_float (with_sign sg (Real r))" and "magnitude (with_sign sg (Real r)) = Real r"
  using assms by (simp_all add: with_sign_def finite_float_def)

lemma bitlength_nonneg: "0 \<le> bitlength n"
  by (induction n rule: bitlength.induct) (subst bitlength.simps, simp)

lemma bitlength_pos: "0 < n \<Longrightarrow> 1 \<le> bitlength n"
  using bitlength_nonneg[of "n div 2"] by (subst bitlength.simps) simp

lemma bitlength_mono: "x \<le> y \<Longrightarrow> bitlength x \<le> bitlength y"
proof (induction x arbitrary: y rule: bitlength.induct)
  case (1 n)
  show ?case
  proof (cases "0 < n")
    case True
    with "1.prems" have y: "0 < y" by simp
    have "n div 2 \<le> y div 2" using "1.prems" by (rule zdiv_mono1) simp
    from "1.IH"[OF True this] have "bitlength (n div 2) \<le> bitlength (y div 2)" .
    then show ?thesis
      using True y by (subst bitlength.simps[of n], subst bitlength.simps[of y]) simp
  next
    case False
    then have "bitlength n = 0" by (subst bitlength.simps) simp
    then show ?thesis using bitlength_nonneg[of y] by simp
  qed
qed

lemma bitlength_bounds:
  "0 < n \<Longrightarrow> 2 ^ nat (bitlength n - 1) \<le> n \<and> n < 2 ^ nat (bitlength n)"
proof (induction n rule: bitlength.induct)
  case (1 n)
  let ?h = "n div 2"
  have bl: "bitlength n = bitlength ?h + 1"
    using "1.prems" by (subst bitlength.simps) simp
  show ?case
  proof (cases "0 < ?h")
    case False
    with "1.prems" have n1: "n = 1" by linarith
    have "bitlength ?h = 0" using False by (subst bitlength.simps) simp
    then show ?thesis using n1 bl by simp
  next
    case True
    from "1.IH"[OF "1.prems" True]
    have lo: "2 ^ nat (bitlength ?h - 1) \<le> ?h" and hi: "?h < 2 ^ nat (bitlength ?h)" by simp_all
    have k: "1 \<le> bitlength ?h" by (rule bitlength_pos[OF True])
    then have e1: "nat (bitlength n - 1) = Suc (nat (bitlength ?h - 1))"
      and e2: "nat (bitlength n) = Suc (nat (bitlength ?h))" using bl by simp_all
    have "(2::int) ^ nat (bitlength n - 1) = 2 * 2 ^ nat (bitlength ?h - 1)"
      by (simp only: e1 power_Suc)
    also have "\<dots> \<le> 2 * ?h" using lo by simp
    also have "\<dots> \<le> n" by simp
    finally have A: "2 ^ nat (bitlength n - 1) \<le> n" .
    have "?h + 1 \<le> 2 ^ nat (bitlength ?h)" using hi by simp
    then have "2 * ?h + 2 \<le> 2 * 2 ^ nat (bitlength ?h)" by simp
    moreover have "n < 2 * ?h + 2" by linarith
    ultimately have "n < 2 * 2 ^ nat (bitlength ?h)" by linarith
    then have B: "n < 2 ^ nat (bitlength n)" by (simp only: e2 power_Suc)
    from A B show ?thesis by (rule conjI)
  qed
qed

text \<open>\<open>expo m\<close> is the exponent of the binade of \<open>m\<close>.\<close>

lemma expo_bounds:
  assumes "0 < m"
  shows "2 powi (expo m) \<le> m \<and> m < 2 powi (expo m + 1)"
proof (cases "1 \<le> m")
  case True
  let ?n = "\<lfloor>m\<rfloor>"
  have n: "0 < ?n" using True by simp
  have e: "expo m = bitlength ?n - 1" using True by (simp add: expo_def)
  have k: "1 \<le> bitlength ?n" by (rule bitlength_pos[OF n])
  from bitlength_bounds[OF n]
  have lo: "2 ^ nat (bitlength ?n - 1) \<le> ?n" and hi: "?n < 2 ^ nat (bitlength ?n)" by simp_all
  have "(2::real) powi (expo m) = 2 ^ nat (bitlength ?n - 1)"
    using k by (simp add: e power_int_nonneg_exp)
  also have "\<dots> = of_int (2 ^ nat (bitlength ?n - 1))" by simp
  also have "\<dots> \<le> of_int ?n" using lo by (simp only: of_int_le_iff)
  also have "\<dots> \<le> m" by simp
  finally have A: "2 powi (expo m) \<le> m" .
  have "?n + 1 \<le> 2 ^ nat (bitlength ?n)" using hi by simp
  then have "of_int (?n + 1) \<le> (of_int (2 ^ nat (bitlength ?n)) :: real)"
    by (simp only: of_int_le_iff)
  moreover have "m < of_int (?n + 1)" by linarith
  ultimately have "m < (of_int (2 ^ nat (bitlength ?n)) :: real)" by linarith
  also have "\<dots> = 2 powi (expo m + 1)"
    using k by (simp add: e power_int_nonneg_exp)
  finally have B: "m < 2 powi (expo m + 1)" .
  from A B show ?thesis by (rule conjI)
next
  case False
  then have m1: "m < 1" by simp
  let ?y = "1 / m"
  let ?k = "\<lceil>?y\<rceil>"
  let ?j = "?k - 1"
  let ?L = "bitlength ?j"
  have y1: "1 < ?y" using assms m1 by simp
  then have "1 < ?k" by linarith
  then have j: "0 < ?j" by simp
  have e: "expo m = - ?L" using False by (simp add: expo_def)
  have k: "1 \<le> ?L" by (rule bitlength_pos[OF j])
  from bitlength_bounds[OF j]
  have lo: "2 ^ nat (?L - 1) \<le> ?j" and hi: "?j < 2 ^ nat ?L" by simp_all
  have p: "(2::real) powi ?L = 2 ^ nat ?L" using k by (simp add: power_int_nonneg_exp)
  have p1: "(2::real) powi (?L - 1) = 2 ^ nat (?L - 1)" using k by (simp add: power_int_nonneg_exp)
  have "?k \<le> 2 ^ nat ?L" using hi by simp
  then have "of_int ?k \<le> (of_int (2 ^ nat ?L) :: real)" by (simp only: of_int_le_iff)
  moreover have "?y \<le> of_int ?k" by simp
  moreover have "(of_int (2 ^ nat ?L) :: real) = 2 ^ nat ?L" by simp
  ultimately have "?y \<le> 2 ^ nat ?L" by linarith
  then have "1 / 2 ^ nat ?L \<le> m"
    using assms by (simp add: field_simps)
  then have A: "2 powi (expo m) \<le> m"
    by (simp add: e power_int_minus_divide p)
  have "(of_int (2 ^ nat (?L - 1)) :: real) \<le> of_int ?j" using lo by (simp only: of_int_le_iff)
  moreover have "of_int ?j < ?y" by linarith
  moreover have "(of_int (2 ^ nat (?L - 1)) :: real) = 2 ^ nat (?L - 1)" by simp
  ultimately have "2 ^ nat (?L - 1) < ?y" by linarith
  then have "m < 1 / 2 ^ nat (?L - 1)"
    using assms by (simp add: field_simps)
  also have "\<dots> = 2 powi (- (?L - 1))" by (simp only: power_int_minus_divide p1)
  also have "- (?L - 1) = expo m + 1" by (simp add: e)
  finally have B: "m < 2 powi (expo m + 1)" .
  from A B show ?thesis by (rule conjI)
qed

lemma expo_mono:
  assumes "0 < x" and "x \<le> y"
  shows "expo x \<le> expo y"
proof (rule ccontr)
  assume "\<not> expo x \<le> expo y"
  then have "expo y + 1 \<le> expo x" by simp
  then have "(2::real) powi (expo y + 1) \<le> 2 powi (expo x)"
    by (rule power_int_increasing) simp
  moreover have "y < 2 powi (expo y + 1)" using expo_bounds[of y] assms by simp
  moreover have "2 powi (expo x) \<le> x" using expo_bounds[OF assms(1)] by simp
  ultimately show False using assms(2) by linarith
qed

lemma binade_ge: "- 126 \<le> binade m"
proof (cases "m < 2 powi (- 126)")
  case True
  then show ?thesis by (simp add: binade_def)
next
  case False
  then have ge: "2 powi (- 126) \<le> m" by simp
  have "(0::real) < 2 powi (- 126)" by simp
  with ge have pos: "0 < m" by linarith
  have "m < 2 powi (expo m + 1)" using expo_bounds[OF pos] by simp
  with ge have "(2::real) powi (- 126) < 2 powi (expo m + 1)" by linarith
  then have "- 126 < expo m + 1"
    by (metis not_le power_int_increasing one_le_numeral leD)
  then show ?thesis using False by (simp add: binade_def)
qed

lemma binade_mono:
  assumes "x \<le> y"
  shows "binade x \<le> binade y"
proof (cases "x < 2 powi (- 126)")
  case True
  then show ?thesis using binade_ge[of y] by (simp add: binade_def)
next
  case False
  then have ge: "2 powi (- 126) \<le> x" by simp
  have "(0::real) < 2 powi (- 126)" by simp
  with ge have pos: "0 < x" by linarith
  have "\<not> y < 2 powi (- 126)" using ge assms by linarith
  then show ?thesis using False expo_mono[OF pos assms] by (simp add: binade_def)
qed

lemma ulp32_pos: "0 < ulp32 m"
  by (simp add: ulp32_def)

lemma ulp32_mono_pow:
  assumes "x \<le> y"
  shows "\<exists>d::nat. ulp32 y = ulp32 x * 2 ^ d"
proof -
  let ?d = "nat (binade y - binade x)"
  have le: "binade x \<le> binade y" by (rule binade_mono[OF assms])
  have "ulp32 y = 2 powi ((binade x - 23) + int ?d)" using le by (simp add: ulp32_def)
  also have "\<dots> = 2 powi (binade x - 23) * 2 powi (int ?d)"
    by (rule power_int_add) simp
  also have "\<dots> = ulp32 x * 2 ^ ?d" using le by (simp add: ulp32_def power_int_nonneg_exp)
  finally show ?thesis by (rule exI)
qed

text \<open>Rounding to the nearest integer does not cross an integer.\<close>

lemma rne_le:
  assumes "x \<le> of_int K"
  shows "rne x \<le> K"
proof -
  have f: "\<lfloor>x\<rfloor> \<le> K" using assms by (simp add: floor_le_iff)
  show ?thesis
  proof (cases "\<lfloor>x\<rfloor> = K")
    case True
    then have "of_int K \<le> x" by (metis of_int_floor_le)
    with assms have "x = of_int K" by simp
    then show ?thesis by (simp add: rne_def)
  next
    case False
    with f have "\<lfloor>x\<rfloor> + 1 \<le> K" by simp
    then show ?thesis by (simp add: rne_def Let_def)
  qed
qed

lemma rne_ge:
  assumes "of_int K \<le> x"
  shows "K \<le> rne x"
proof -
  have "K \<le> \<lfloor>x\<rfloor>" using assms by (simp add: le_floor_iff)
  then show ?thesis by (simp add: rne_def Let_def)
qed

lemma rne_of_int: "rne (of_int k) = k"
  by (simp add: rne_def)

text \<open>
  A magnitude that rounds to itself is a value of binary32. Rounding does not cross such a
  value: what lies below it rounds to a value below it.
\<close>

lemma round32_le:
  assumes "0 \<le> x" and "x \<le> c" and "round32 c = Real c"
  shows "\<exists>r. round32 x = Real r \<and> 0 \<le> r \<and> r \<le> c"
proof -
  let ?ux = "ulp32 x" and ?uc = "ulp32 c"
  have ux: "0 < ?ux" and uc: "0 < ?uc" by (rule ulp32_pos)+
  from ulp32_mono_pow[OF assms(2)] obtain d :: nat where d: "?uc = ?ux * 2 ^ d" ..
  let ?kc = "rne (c / ?uc)"
  from assms(3) have c: "of_int ?kc * ?uc = c" and small: "\<not> 2 ^ 128 \<le> c"
    by (auto simp: round32_def Let_def split: if_splits)
  have "c / ?ux = of_int ?kc * 2 ^ d"
  proof -
    have "c / ?ux = (of_int ?kc * ?uc) / ?ux" by (simp only: c)
    also have "\<dots> = of_int ?kc * 2 ^ d" using ux by (simp add: d)
    finally show ?thesis .
  qed
  then have cK: "c / ?ux = of_int (?kc * 2 ^ d)" by simp
  have "x / ?ux \<le> c / ?ux" using assms(2) ux by (simp add: divide_right_mono)
  then have "x / ?ux \<le> of_int (?kc * 2 ^ d)" by (simp only: cK)
  then have le: "rne (x / ?ux) \<le> ?kc * 2 ^ d" by (rule rne_le)
  have "of_int 0 \<le> x / ?ux" using assms(1) ux by simp
  then have ge: "0 \<le> rne (x / ?ux)" by (rule rne_ge)
  let ?r = "of_int (rne (x / ?ux)) * ?ux"
  have r0: "0 \<le> ?r" using ge ux by simp
  have "?r \<le> of_int (?kc * 2 ^ d) * ?ux"
    using le ux by (intro mult_right_mono) (simp_all only: of_int_le_iff less_imp_le)
  also have "\<dots> = c" using cK ux by (simp add: field_simps)
  finally have rc: "?r \<le> c" .
  with small have "\<not> 2 ^ 128 \<le> ?r" by linarith
  then have "round32 x = Real ?r" by (simp add: round32_def Let_def)
  with r0 rc show ?thesis by blast
qed

lemma round32_1: "round32 1 = Real 1"
  by code_simp

lemma round32_0: "round32 0 = Real 0"
  by code_simp

text \<open>
  A quotient whose numerator is not above its positive denominator in magnitude has a
  magnitude of at most 1; the product of such a quotient and a value of binary32 is not
  above that value in magnitude.
\<close>

lemma divide_bound:
  assumes fa: "finite_float a" and m: "0 < m" and le: "magnitude a \<le> Real m"
  shows "\<exists>q. 0 \<le> q \<and> q \<le> 1 \<and> finite_float (a / Fin m) \<and> magnitude (a / Fin m) = Real q"
proof -
  from fa obtain x where x: "magnitude a = Real x" "0 \<le> x" and nn: "a \<noteq> NaN"
    by (cases a rule: finite_floatE) auto
  from le x(1) have xm: "x \<le> m" by simp
  have q0: "0 \<le> x / m" using x(2) m by simp
  have q1: "x / m \<le> 1" using xm m by simp
  from round32_le[OF q0 q1 round32_1] obtain r
    where r: "round32 (x / m) = Real r" "0 \<le> r" "r \<le> 1" by blast
  have va: "val \<bar>a\<bar> = Real x" using x(1) by (simp add: magnitude_def)
  have "a / Fin m = with_sign (negative a \<noteq> negative (Fin m)) (Real r)"
    using nn m by (simp add: divide_float_def va r(1))
  with with_sign_Real[OF r(2)] r(2,3) show ?thesis by auto
qed

lemma times_bound:
  assumes fa: "finite_float a" and q: "magnitude a = Real q" "0 \<le> q" "q \<le> 1"
    and fs: "finite_float s" and bs: "binary32 s"
  shows "\<exists>r. finite_float (a * s) \<and> magnitude (a * s) = Real r \<and> Real r \<le> magnitude s"
proof -
  from fa have nna: "a \<noteq> NaN" by (auto simp: finite_float_def)
  from fs bs obtain c where c: "magnitude s = Real c" "0 \<le> c" "round32 c = Real c"
    and nns: "s \<noteq> NaN"
    by (cases s rule: finite_floatE) (auto simp: binary32_def round32_0)
  have p0: "0 \<le> q * c" using q(2) c(2) by simp
  have "q * c \<le> 1 * c" using q(3) c(2) by (rule mult_right_mono)
  then have p1: "q * c \<le> c" by simp
  from round32_le[OF p0 p1 c(3)] obtain r
    where r: "round32 (q * c) = Real r" "0 \<le> r" "r \<le> c" by blast
  have va: "val \<bar>a\<bar> = Real q" using q(1) by (simp add: magnitude_def)
  have vs: "val \<bar>s\<bar> = Real c" using c(1) by (simp add: magnitude_def)
  have "a * s = with_sign (negative a \<noteq> negative s) (Real r)"
    using nna nns by (simp add: times_float_def va vs r(1))
  with with_sign_Real[OF r(2)] r(3) c(1) show ?thesis by auto
qed

lemma magnitude_range:
  assumes "finite_float v" and "finite_float s" and "0 \<le> s" and "magnitude v \<le> magnitude s"
  shows "- s \<le> v \<and> v \<le> s"
  using assms by (auto simp: finite_float_iff uminus_float_def zero_float_def)

lemma zero_range:
  assumes "finite_float s" and "0 \<le> s"
  shows "- s \<le> 0 \<and> (0::float) \<le> s"
  using assms by (auto simp: finite_float_iff uminus_float_def zero_float_def)

section \<open>Facts about normalizeWaveform\<close>

lemma Max_insert_max:
  fixes A :: "'a::linorder set"
  assumes "finite A"
  shows "Max (insert (max m x) A) = Max (insert m (insert x A))"
proof (cases "A = {}")
  case True
  then show ?thesis by simp
next
  case False
  with assms show ?thesis by (simp add: max.assoc)
qed

text \<open>The loop returns the maximum of its start value and the magnitudes that pass the test.\<close>

lemma maxAboveThreshold_Max:
  "maxAboveThreshold t xs (Num m) = Num (Max (insert m {magnitude s |s. s \<in> set xs \<and> t \<le> \<bar>s\<bar>}))"
proof (induction xs arbitrary: m)
  case Nil
  show ?case by simp
next
  case (Cons x xs)
  let ?A = "{magnitude s |s. s \<in> set xs \<and> t \<le> \<bar>s\<bar>}"
  have fin: "finite ?A" by simp
  show ?case
  proof (cases "t \<le> \<bar>x\<bar>")
    case True
    have ax: "\<bar>x\<bar> = Num (magnitude x)" by (rule abs_eq_Num[OF le_abs_not_NaN[OF True]])
    have eq: "{magnitude s |s. s \<in> set (x # xs) \<and> t \<le> \<bar>s\<bar>} = insert (magnitude x) ?A"
      using True by auto
    have "std_max (Num m) \<bar>x\<bar> = Num (max m (magnitude x))"
      by (simp only: ax std_max_Num)
    then have "maxAboveThreshold t (x # xs) (Num m)
                 = maxAboveThreshold t xs (Num (max m (magnitude x)))"
      using True by simp
    also have "\<dots> = Num (Max (insert (max m (magnitude x)) ?A))"
      by (rule Cons.IH)
    also have "Max (insert (max m (magnitude x)) ?A) = Max (insert m (insert (magnitude x) ?A))"
      by (rule Max_insert_max[OF fin])
    finally show ?thesis by (simp only: eq)
  next
    case False
    have eq: "{magnitude s |s. s \<in> set (x # xs) \<and> t \<le> \<bar>s\<bar>} = ?A"
      using False by auto
    have "maxAboveThreshold t (x # xs) (Num m) = Num (Max (insert m ?A))"
      using False by (simp add: Cons.IH)
    then show ?thesis by (simp only: eq)
  qed
qed

lemma maxAboveThreshold_spec_M: "maxAboveThreshold t ch 0 = spec_M t ch"
proof (cases "\<exists>s \<in> set ch. t \<le> \<bar>s\<bar>")
  case True
  let ?A = "{magnitude s |s. s \<in> set ch \<and> t \<le> \<bar>s\<bar>}"
  from True obtain s where s: "s \<in> set ch" "t \<le> \<bar>s\<bar>" by blast
  have fin: "finite ?A" by simp
  have ne: "?A \<noteq> {}" using s by blast
  have "magnitude s \<in> ?A" using s by blast
  then have "magnitude s \<le> Max ?A" using fin by simp
  then have "Real 0 \<le> Max ?A" using magnitude_nonneg[of s] by (rule order_trans[rotated])
  then have "Max (insert (Real 0) ?A) = Max ?A" using fin ne by (simp add: max_absorb2)
  then show ?thesis using True by (simp add: zero_float_def maxAboveThreshold_Max spec_M_def)
next
  case False
  then have e: "{magnitude s |s. s \<in> set ch \<and> t \<le> \<bar>s\<bar>} = {}" by blast
  have "maxAboveThreshold t ch 0 = Num (Max (insert (Real 0) {}))"
    by (simp only: zero_float_def maxAboveThreshold_Max e)
  moreover have "spec_M t ch = 0" using False by (simp add: spec_M_def)
  ultimately show ?thesis by (simp add: zero_float_def)
qed

text \<open>\<open>M\<close> is 0 or the magnitude of a sample that passes the test.\<close>

lemma spec_M_cases:
  "spec_M t ch = 0 \<and> \<not> 0 < spec_M t ch
   \<or> 0 < spec_M t ch \<and> (\<exists>s \<in> set ch. t \<le> \<bar>s\<bar> \<and> spec_M t ch = \<bar>s\<bar>)"
proof (cases "\<exists>s \<in> set ch. t \<le> \<bar>s\<bar>")
  case False
  then show ?thesis by (simp add: spec_M_def zero_float_def)
next
  case True
  let ?A = "{magnitude s |s. s \<in> set ch \<and> t \<le> \<bar>s\<bar>}"
  from True have ne: "?A \<noteq> {}" by blast
  have fin: "finite ?A" by simp
  from Max_in[OF fin ne] obtain s where s: "s \<in> set ch" "t \<le> \<bar>s\<bar>" "Max ?A = magnitude s"
    by blast
  have M: "spec_M t ch = Num (magnitude s)" using True s(3) by (simp add: spec_M_def)
  have as: "\<bar>s\<bar> = Num (magnitude s)" by (rule abs_eq_Num[OF le_abs_not_NaN[OF s(2)]])
  show ?thesis
  proof (cases "Real 0 < magnitude s")
    case True
    then have "0 < spec_M t ch" by (simp add: M zero_float_def)
    moreover have "spec_M t ch = \<bar>s\<bar>" by (simp only: M as)
    ultimately show ?thesis using s(1,2) by blast
  next
    case False
    then have "magnitude s = Real 0" by (intro antisym) (simp_all add: not_less)
    then show ?thesis by (simp add: M zero_float_def)
  qed
qed

lemma normalizeChannel_eq_spec:
  "normalizeChannel ch scale t = spec_normalizeChannel ch scale t"
proof (cases "0 < spec_M t ch")
  case True
  then have nz: "spec_M t ch \<noteq> 0" by (intro notI) simp
  show ?thesis
    using True nz
    by (simp add: normalizeChannel_def spec_normalizeChannel_def maxAboveThreshold_spec_M
        normalizeSample_def)
next
  case False
  with spec_M_cases[of t ch] have z: "spec_M t ch = 0" by auto
  show ?thesis
    using False
    by (simp add: normalizeChannel_def spec_normalizeChannel_def maxAboveThreshold_spec_M z
        map_replicate_const)
qed

lemma normalizeWaveform_map:
  "normalizeWaveform env scale t = map (\<lambda>ch. normalizeChannel ch scale t) env"
  by (simp add: normalizeWaveform_def)

lemma normalizeChannel_bound:
  assumes sc: "0 \<le> scale" "finite_float scale" "binary32 scale"
    and fin: "\<forall>s \<in> set ch. finite_float s"
    and v: "v \<in> set (normalizeChannel ch scale t)"
  shows "- scale \<le> v \<and> v \<le> scale"
proof (cases "ch = [] \<or> \<not> 0 < spec_M t ch")
  case True
  then have "v = 0"
    using v by (auto simp: normalizeChannel_def maxAboveThreshold_spec_M Let_def split: if_splits)
  then show ?thesis using zero_range[OF sc(2,1)] by simp
next
  case False
  then have pos: "0 < spec_M t ch" by simp
  from False v obtain s where s: "s \<in> set ch"
    and vs: "v = normalizeSample (spec_M t ch) scale t s"
    by (auto simp: normalizeChannel_def maxAboveThreshold_spec_M Let_def)
  show ?thesis
  proof (cases "\<bar>s\<bar> < t")
    case True
    then have "v = 0" using vs by (simp add: normalizeSample_def)
    then show ?thesis using zero_range[OF sc(2,1)] by simp
  next
    case nlt: False
    from pos spec_M_cases[of t ch] obtain s' where s': "s' \<in> set ch" "t \<le> \<bar>s'\<bar>"
      "spec_M t ch = \<bar>s'\<bar>" by auto
    from fin s' have fs': "finite_float s'" by simp
    from fin s have fs: "finite_float s" by simp
    from s'(2) have tn: "t \<noteq> NaN" by (auto simp: less_eq_float_def)
    from fs have sn: "\<bar>s\<bar> \<noteq> NaN" by (cases s rule: finite_floatE) simp_all
    from nlt tn sn have pass: "t \<le> \<bar>s\<bar>"
      by (simp add: less_float_def less_eq_float_def not_less)
    obtain m where M: "spec_M t ch = Fin m" "0 \<le> m"
      using fs' s'(3) by (cases s' rule: finite_floatE) auto
    from pos M have m: "0 < m" by (simp add: zero_float_def)
    have "magnitude s \<in> {magnitude x |x. x \<in> set ch \<and> t \<le> \<bar>x\<bar>}" using s pass by blast
    then have "magnitude s \<le> Max {magnitude x |x. x \<in> set ch \<and> t \<le> \<bar>x\<bar>}" by simp
    moreover have "spec_M t ch = Num (Max {magnitude x |x. x \<in> set ch \<and> t \<le> \<bar>x\<bar>})"
      using s pass by (auto simp: spec_M_def)
    ultimately have le: "magnitude s \<le> Real m" using M(1) by simp
    from divide_bound[OF fs m le] obtain q where q: "0 \<le> q" "q \<le> 1"
      "finite_float (s / Fin m)" "magnitude (s / Fin m) = Real q" by blast
    from times_bound[OF q(3,4,1,2) sc(2,3)] obtain r
      where r: "finite_float (s / Fin m * scale)" "magnitude (s / Fin m * scale) = Real r"
        "Real r \<le> magnitude scale" by blast
    have "v = s / Fin m * scale" using vs nlt by (simp add: normalizeSample_def M(1))
    with magnitude_range[OF r(1) sc(2,1)] r(2,3) show ?thesis by simp
  qed
qed

section \<open>Claims about normalizeWaveform\<close>

text \<open>
  C2, as far as it holds. For every envelope, scale and threshold \<open>t\<close>, \<open>normalizeWaveform\<close>
  returns an envelope of the same shape, computed channel by channel: the output is the
  specification's per-channel map (\<open>M\<close> the maximum magnitude among the samples with
  \<open>\<bar>s\<bar> \<ge> t\<close>; samples with \<open>\<bar>s\<bar> < t\<close> become 0, the others \<open>(s / M) * scale\<close> in the
  arithmetic of \<^verbatim>\<open>float\<close>, everything 0 when \<open>M = 0\<close>), a channel's output depends on that
  channel only, and empty channels stay empty. When the samples are finite and the scale
  is a finite value of binary32 with \<open>scale \<ge> 0\<close>, every output value lies in
  \<open>[-scale, scale]\<close>.
\<close>

theorem normalizeWaveform_spec:
  "normalizeWaveform env scale t = map (\<lambda>ch. spec_normalizeChannel ch scale t) env
   \<and> length (normalizeWaveform env scale t) = length env
   \<and> (\<forall>c < length env.
        length (normalizeWaveform env scale t ! c) = length (env ! c)
        \<and> normalizeWaveform env scale t ! c = normalizeWaveform [env ! c] scale t ! 0
        \<and> (env ! c = [] \<longrightarrow> normalizeWaveform env scale t ! c = []))
   \<and> (0 \<le> scale \<and> finite_float scale \<and> binary32 scale
        \<and> (\<forall>ch \<in> set env. \<forall>s \<in> set ch. finite_float s) \<longrightarrow>
        (\<forall>ch \<in> set (normalizeWaveform env scale t). \<forall>v \<in> set ch. - scale \<le> v \<and> v \<le> scale))"
proof (intro conjI)
  show "normalizeWaveform env scale t = map (\<lambda>ch. spec_normalizeChannel ch scale t) env"
    by (simp add: normalizeWaveform_map normalizeChannel_eq_spec)
  show "length (normalizeWaveform env scale t) = length env"
    by (simp add: normalizeWaveform_map)
  show "\<forall>c < length env.
        length (normalizeWaveform env scale t ! c) = length (env ! c)
        \<and> normalizeWaveform env scale t ! c = normalizeWaveform [env ! c] scale t ! 0
        \<and> (env ! c = [] \<longrightarrow> normalizeWaveform env scale t ! c = [])"
    by (simp add: normalizeWaveform_map normalizeChannel_eq_spec spec_normalizeChannel_def)
  show "0 \<le> scale \<and> finite_float scale \<and> binary32 scale
        \<and> (\<forall>ch \<in> set env. \<forall>s \<in> set ch. finite_float s) \<longrightarrow>
        (\<forall>ch \<in> set (normalizeWaveform env scale t). \<forall>v \<in> set ch. - scale \<le> v \<and> v \<le> scale)"
  proof (intro impI ballI, elim conjE)
    fix out v
    assume sc: "0 \<le> scale" "finite_float scale" "binary32 scale"
      and fin: "\<forall>ch \<in> set env. \<forall>s \<in> set ch. finite_float s"
      and out: "out \<in> set (normalizeWaveform env scale t)" and v: "v \<in> set out"
    from out obtain ch where ch: "ch \<in> set env" "out = normalizeChannel ch scale t"
      by (auto simp: normalizeWaveform_map)
    from fin ch(1) have "\<forall>s \<in> set ch. finite_float s" by simp
    from normalizeChannel_bound[OF sc this] v ch(2)
    show "- scale \<le> v \<and> v \<le> scale" by simp
  qed
qed

theorem normalizeWaveform_spec_witness:
  "normalizeWaveform [[Fin (1/16), Fin (- 1/2), Fin (3/4)], []] 1 (Fin (1/8))
     = [[0, Fin (- 11184811/16777216), 1], []]
   \<and> list_all (list_all (\<lambda>v. - 1 \<le> v \<and> v \<le> 1))
        (normalizeWaveform [[Fin (1/16), Fin (- 1/2), Fin (3/4)], []] 1 (Fin (1/8)))"
proof -
  let ?env = "[[Fin (1/16), Fin (- 1/2), Fin (3/4)], []]"
  have val: "normalizeWaveform ?env 1 (Fin (1/8)) = [[0, Fin (- 11184811/16777216), 1], []]"
    by code_simp
  have hyp: "(0::float) \<le> 1 \<and> finite_float 1 \<and> binary32 1
      \<and> (\<forall>ch \<in> set ?env. \<forall>s \<in> set ch. finite_float s)"
    by (simp add: zero_float_def one_float_def finite_float_def binary32_def round32_1)
  from normalizeWaveform_spec[of ?env 1 "Fin (1/8)"] hyp
  have "\<forall>ch \<in> set (normalizeWaveform ?env 1 (Fin (1/8))). \<forall>v \<in> set ch. - 1 \<le> v \<and> v \<le> 1"
    by blast
  then have "list_all (list_all (\<lambda>v. - 1 \<le> v \<and> v \<le> 1)) (normalizeWaveform ?env 1 (Fin (1/8)))"
    by (simp add: list_all_iff)
  with val show ?thesis by (rule conjI)
qed

text \<open>
  C2 as stated promises the range \<open>[-scale, scale]\<close> for every envelope. A NaN sample is
  not below the threshold (no comparison with a NaN holds), so it takes the branch of the
  division and comes out as a NaN, which lies in no range.
\<close>

theorem normalizeWaveform_nan_sample:
  "normalizeWaveform [[NaN, Fin (1/2)]] 1 0 = [[NaN, 1]]
   \<and> (0::float) \<le> 1
   \<and> \<not> (- 1 \<le> NaN \<and> NaN \<le> (1::float))"
proof (intro conjI)
  show "normalizeWaveform [[NaN, Fin (1/2)]] 1 0 = [[NaN, 1]]" by code_simp
  show "(0::float) \<le> 1" by (simp add: zero_float_def one_float_def)
  show "\<not> (- 1 \<le> NaN \<and> NaN \<le> (1::float))" by simp
qed

section \<open>Facts about the reductions\<close>

lemma image_upt_Suc_shift:
  "f ` {0..<Suc n} = insert (f 0) ((\<lambda>k. f (Suc k)) ` {0..<n})"
proof -
  have h: "{0..<Suc n} = insert 0 (Suc ` {0..<n})"
    by (auto simp: image_iff)
  show ?thesis by (simp only: h image_insert image_image)
qed

text \<open>
  On samples that are not NaNs the scalar loop computes the maximum of its start value
  and the magnitudes it visits.
\<close>

lemma stridedMax_steps:
  assumes "0 < C" and "\<forall>k<n. i + k * C < e" and "e \<le> i + n * C"
    and "\<forall>k<n. a ! (i + k * C) \<noteq> NaN"
  shows "stridedMax a C e i (Num m)
           = Num (Max (insert m ((\<lambda>k. magnitude (a ! (i + k * C))) ` {0..<n})))"
  using assms(2,3,4)
proof (induction n arbitrary: i m)
  case 0
  then have "\<not> i < e" by simp
  then show ?case by (simp add: stridedMax.simps[of a C e i "Num m"])
next
  case (Suc n)
  from Suc.prems(1) have lt: "i < e" by force
  from Suc.prems(3) have nn: "a ! i \<noteq> NaN" by force
  have p1: "\<forall>k<n. (i + C) + k * C < e"
  proof (intro allI impI)
    fix k assume "k < n"
    then have "Suc k < Suc n" by simp
    with Suc.prems(1) have "i + Suc k * C < e" by blast
    then show "(i + C) + k * C < e" by (simp add: add.assoc)
  qed
  have p2: "e \<le> (i + C) + n * C" using Suc.prems(2) by (simp add: add.assoc)
  have p3: "\<forall>k<n. a ! ((i + C) + k * C) \<noteq> NaN"
  proof (intro allI impI)
    fix k assume "k < n"
    then have "Suc k < Suc n" by simp
    with Suc.prems(3) have "a ! (i + Suc k * C) \<noteq> NaN" by blast
    then show "a ! ((i + C) + k * C) \<noteq> NaN" by (simp add: add.assoc)
  qed
  let ?f = "\<lambda>k. magnitude (a ! (i + k * C))"
  have step: "std_max (Num m) \<bar>a ! i\<bar> = Num (max m (magnitude (a ! i)))"
    by (simp only: abs_eq_Num[OF nn] std_max_Num)
  have "stridedMax a C e i (Num m) = stridedMax a C e (i + C) (std_max (Num m) \<bar>a ! i\<bar>)"
    using lt assms(1) by (simp add: stridedMax.simps[of a C e i "Num m"])
  also have "\<dots> = Num (Max (insert (max m (magnitude (a ! i)))
                      ((\<lambda>k. magnitude (a ! ((i + C) + k * C))) ` {0..<n})))"
    by (simp only: step Suc.IH[OF p1 p2 p3])
  also have "Max (insert (max m (magnitude (a ! i)))
                      ((\<lambda>k. magnitude (a ! ((i + C) + k * C))) ` {0..<n}))
           = Max (insert m (insert (magnitude (a ! i))
                      ((\<lambda>k. magnitude (a ! ((i + C) + k * C))) ` {0..<n})))"
    by (rule Max_insert_max) simp
  also have "insert (magnitude (a ! i)) ((\<lambda>k. magnitude (a ! ((i + C) + k * C))) ` {0..<n})
           = ?f ` {0..<Suc n}"
    by (simp only: image_upt_Suc_shift[of ?f n]) (simp add: ac_simps)
  finally show ?case .
qed

lemma Max_insert_0_magnitude:
  fixes n :: nat
  assumes "0 < n"
  shows "Max (insert (Real 0) ((\<lambda>k. magnitude (g k)) ` {0..<n}))
           = Max ((\<lambda>k. magnitude (g k)) ` {0..<n})"
proof -
  let ?A = "(\<lambda>k. magnitude (g k)) ` {0..<n}"
  have fin: "finite ?A" by simp
  have ne: "?A \<noteq> {}" using assms by simp
  have "magnitude (g 0) \<in> ?A" using assms by (simp add: image_iff) (rule bexI[of _ 0], simp_all)
  then have "magnitude (g 0) \<le> Max ?A" using fin by simp
  then have "Real 0 \<le> Max ?A" using magnitude_nonneg[of "g 0"] by (rule order_trans[rotated])
  then show ?thesis using fin ne by (simp add: max_absorb2)
qed

text \<open>Whole buckets lie inside the buffer.\<close>

lemma bucket_index_bound:
  fixes c C k S b B N :: nat
  assumes "c < C" and "k < S" and "b < B" and "B * (S * C) \<le> N"
  shows "b * S * C + c + k * C < N"
proof -
  have "c + k * C < C + k * C" using assms(1) by simp
  also have "\<dots> = Suc k * C" by simp
  also have "\<dots> \<le> S * C" using assms(2) by (intro mult_le_mono1) simp
  finally have "b * (S * C) + (c + k * C) < b * (S * C) + S * C" by simp
  also have "\<dots> = Suc b * (S * C)" by simp
  also have "\<dots> \<le> B * (S * C)" using assms(3) by (intro mult_le_mono1) simp
  finally show ?thesis using assms(4) by (simp add: mult.assoc add.assoc)
qed

lemma bucket_index_whole:
  fixes c C k S b B :: nat
  assumes "c < C" and "k < S" and "b < B"
  shows "b * S * C + c + k * C < B * (S * C)"
  by (rule bucket_index_bound[OF assms le_refl])

lemma div_div_whole:
  fixes N S C :: nat
  shows "(N div S div C) * (S * C) \<le> N"
  by (simp add: div_mult2_eq[symmetric])

lemma channelPeak_spec:
  assumes "0 < S" and "c < C" and "b < B" and "B * (S * C) \<le> length a"
    and nn: "\<forall>i < B * (S * C). a ! i \<noteq> NaN"
  shows "channelPeak a S C b c = spec_peak a S C b c"
proof -
  let ?i = "b * S * C + c"
  let ?e = "min (?i + S * C) (length a)"
  have C: "0 < C" using assms(2) by simp
  have p1: "\<forall>k<S. ?i + k * C < ?e"
  proof (intro allI impI)
    fix k assume k: "k < S"
    have "?i + k * C < length a" by (rule bucket_index_bound[OF assms(2) k assms(3,4)])
    moreover have "k * C < S * C" using k C by simp
    ultimately show "?i + k * C < ?e" by simp
  qed
  have p2: "?e \<le> ?i + S * C" by simp
  have p3: "\<forall>k<S. a ! (?i + k * C) \<noteq> NaN"
  proof (intro allI impI)
    fix k assume k: "k < S"
    have "?i + k * C < B * (S * C)" by (rule bucket_index_whole[OF assms(2) k assms(3)])
    with nn show "a ! (?i + k * C) \<noteq> NaN" by simp
  qed
  have "channelPeak a S C b c = stridedMax a C ?e ?i (Num (Real 0))"
    by (simp add: channelPeak_def Let_def zero_float_def)
  also have "\<dots> = Num (Max (insert (Real 0) ((\<lambda>k. magnitude (a ! (?i + k * C))) ` {0..<S})))"
    by (rule stridedMax_steps[OF C p1 p2 p3])
  also have "\<dots> = Num (Max ((\<lambda>k. magnitude (a ! (?i + k * C))) ` {0..<S}))"
    by (simp only: Max_insert_0_magnitude[OF assms(1)])
  also have "\<dots> = spec_peak a S C b c"
    by (simp add: spec_peak_def ac_simps)
  finally show ?thesis .
qed

lemma Max_insert_Max:
  fixes A B :: "'a::linorder set"
  assumes "finite A" and "finite B"
  shows "Max (insert (Max (insert m A)) B) = Max (insert m (A \<union> B))"
proof (cases "B = {}")
  case True
  then show ?thesis by simp
next
  case False
  have "Max (insert m (A \<union> B)) = Max (insert m A \<union> B)" by simp
  also have "\<dots> = max (Max (insert m A)) (Max B)"
    using assms False by (intro Max_Un) simp_all
  also have "\<dots> = Max (insert (Max (insert m A)) B)"
    using assms(2) False by simp
  finally show ?thesis by simp
qed

lemma image_shift_upt:
  fixes f :: "nat \<Rightarrow> 'a"
  assumes "i \<le> count"
  shows "(\<lambda>k. f (i + k)) ` {0..<count - i} = f ` {i..<count}"
proof (rule set_eqI, rule iffI)
  fix y assume "y \<in> (\<lambda>k. f (i + k)) ` {0..<count - i}"
  then obtain k where "k < count - i" "y = f (i + k)" by auto
  then show "y \<in> f ` {i..<count}" by (intro image_eqI[of _ _ "i + k"]) auto
next
  fix y assume "y \<in> f ` {i..<count}"
  then obtain j where j: "i \<le> j" "j < count" "y = f j" by auto
  then have "y = f (i + (j - i))" "j - i \<in> {0..<count - i}" by auto
  then show "y \<in> (\<lambda>k. f (i + k)) ` {0..<count - i}" by (rule image_eqI)
qed

lemma stridedMax_unit:
  assumes "i \<le> count" and nn: "\<forall>j<count. d ! j \<noteq> NaN"
  shows "stridedMax d 1 count i (Num m)
           = Num (Max (insert m ((\<lambda>j. magnitude (d ! j)) ` {i..<count})))"
proof -
  have p1: "\<forall>k<count - i. i + k * 1 < count" by auto
  have p2: "count \<le> i + (count - i) * 1" by simp
  have p3: "\<forall>k<count - i. d ! (i + k * 1) \<noteq> NaN" using nn by auto
  have "stridedMax d 1 count i (Num m)
          = Num (Max (insert m ((\<lambda>k. magnitude (d ! (i + k * 1))) ` {0..<count - i})))"
    by (rule stridedMax_steps[OF _ p1 p2 p3]) simp
  then have "stridedMax d 1 count i (Num m)
          = Num (Max (insert m ((\<lambda>k. magnitude (d ! (i + k))) ` {0..<count - i})))"
    by (simp only: mult_1_right)
  then show ?thesis by (simp only: image_shift_upt[OF assms(1), of "\<lambda>j. magnitude (d ! j)"])
qed

lemma Max_insert4:
  fixes m :: "'a::linorder"
  shows "Max (insert m {x0, x1, x2, x3}) = max m (max x0 (max x1 (max x2 x3)))"
  by (simp only: Max_insert finite_insert finite.emptyI insert_not_empty Max_singleton
      not_False_eq_True)

text \<open>
  The lane operations of both instruction sets are the maximum on numbers. They differ
  from it, and from each other, on NaNs only.
\<close>

lemma mm_max_Num: "mm_max (Num x) (Num y) = Num (max x y)"
  by (auto simp: mm_max_def max_def)

lemma vmax_Num: "vmax (Num x) (Num y) = Num (max x y)"
  by (auto simp: vmax_def max_def)

lemma lanes_vnum:
  assumes mx: "\<And>x y. mx (Num x) (Num y) = Num (max x y)"
    and nn: "\<forall>j<4. d ! (i + j) \<noteq> NaN"
  shows "lanes mx (vnum (w0, w1, w2, w3)) (load_abs d i)
           = vnum (max w0 (magnitude (d ! i)), max w1 (magnitude (d ! (i + 1))),
                   max w2 (magnitude (d ! (i + 2))), max w3 (magnitude (d ! (i + 3))))"
proof -
  have n0: "d ! i \<noteq> NaN" using nn by (elim allE[of _ 0]) simp
  have n1: "d ! (i + 1) \<noteq> NaN" using nn by (elim allE[of _ 1]) simp
  have n2: "d ! (i + 2) \<noteq> NaN" using nn by (elim allE[of _ 2]) simp
  have n3: "d ! (i + 3) \<noteq> NaN" using nn by (elim allE[of _ 3]) simp
  show ?thesis
    by (simp only: vnum_def lanes_def load_abs_def prod.case
        abs_eq_Num[OF n0] abs_eq_Num[OF n1] abs_eq_Num[OF n2] abs_eq_Num[OF n3] mx)
qed

lemma max4_step:
  "max4 (max w0 x0, max w1 x1, max w2 x2, max w3 x3)
     = Max (insert (max4 (w0, w1, w2, w3)) {x0, x1, x2, x3})"
proof -
  have "max4 (max w0 x0, max w1 x1, max w2 x2, max w3 x3)
          = max (max (max w0 x0) (max w1 x1)) (max (max w2 x2) (max w3 x3))"
    by (simp only: max4_def prod.case)
  also have "\<dots> = max (max (max w0 w1) (max w2 w3)) (max x0 (max x1 (max x2 x3)))"
    by (simp only: max.assoc max.left_commute max.commute)
  also have "\<dots> = Max (insert (max4 (w0, w1, w2, w3)) {x0, x1, x2, x3})"
    by (simp only: Max_insert4 max4_def prod.case)
  finally show ?thesis .
qed

lemma vecLoop_max:
  assumes mx: "\<And>x y. mx (Num x) (Num y) = Num (max x y)"
    and run: "vecLoop mx d count i v = (i', v')"
    and v: "v = vnum w"
    and nn: "\<forall>j<count. d ! j \<noteq> NaN"
  shows "i \<le> i' \<and> (i \<le> count \<longrightarrow> i' \<le> count)
         \<and> (\<exists>w'. v' = vnum w'
                \<and> max4 w' = Max (insert (max4 w) ((\<lambda>j. magnitude (d ! j)) ` {i..<i'})))"
  using mx run v nn
proof (induction mx d count i v arbitrary: w rule: vecLoop.induct)
  case (1 lane_max data count i maxVec)
  note mx' = "1.prems"(1)
  show ?case
  proof (cases "i + 4 \<le> count")
    case True
    let ?f = "\<lambda>j. magnitude (data ! j)"
    obtain w0 w1 w2 w3 where w: "w = (w0, w1, w2, w3)" by (cases w) auto
    let ?w1 = "(max w0 (?f i), max w1 (?f (i + 1)), max w2 (?f (i + 2)), max w3 (?f (i + 3)))"
    have nn4: "\<forall>j<4. data ! (i + j) \<noteq> NaN" using True "1.prems"(4) by auto
    have ld: "lanes lane_max maxVec (load_abs data i) = vnum ?w1"
      using lanes_vnum[of lane_max data i w0 w1 w2 w3, OF mx' nn4] "1.prems"(3) w by simp
    from "1.prems"(2) True
    have run: "vecLoop lane_max data count (i + 4) (lanes lane_max maxVec (load_abs data i)) = (i', v')"
      by (simp add: vecLoop.simps[of lane_max data count i maxVec])
    from "1.IH"[OF True mx' run ld "1.prems"(4)]
    obtain w' where ih: "i + 4 \<le> i'" "i' \<le> count" "v' = vnum w'"
      "max4 w' = Max (insert (max4 ?w1) (?f ` {i + 4..<i'}))"
      using True by auto
    have r: "{i..<i + 4} = {i, i + 1, i + 2, i + 3}" by auto
    have m1: "max4 ?w1 = Max (insert (max4 w) (?f ` {i..<i + 4}))"
      by (simp only: max4_step w r image_insert image_empty)
    have split: "{i..<i'} = {i..<i + 4} \<union> {i + 4..<i'}" using ih(1) by auto
    have "max4 w' = Max (insert (Max (insert (max4 w) (?f ` {i..<i + 4}))) (?f ` {i + 4..<i'}))"
      by (simp only: ih(4) m1)
    also have "\<dots> = Max (insert (max4 w) (?f ` {i..<i + 4} \<union> ?f ` {i + 4..<i'}))"
      by (rule Max_insert_Max) simp_all
    also have "?f ` {i..<i + 4} \<union> ?f ` {i + 4..<i'} = ?f ` {i..<i'}"
      by (simp only: split image_Un)
    finally have "max4 w' = Max (insert (max4 w) (?f ` {i..<i'}))" .
    with ih(3) have ex: "\<exists>w'. v' = vnum w'
                \<and> max4 w' = Max (insert (max4 w) (?f ` {i..<i'}))" by blast
    have "i \<le> i'" using ih(1) by simp
    with ih(2) ex show ?thesis by blast
  next
    case False
    with "1.prems"(2) have e: "i' = i" "v' = maxVec"
      by (simp_all add: vecLoop.simps[of lane_max data count i maxVec])
    have "max4 w = Max (insert (max4 w) ((\<lambda>j. magnitude (data ! j)) ` {i..<i}))" by simp
    with e "1.prems"(3) have ex: "\<exists>w'. v' = vnum w'
                \<and> max4 w' = Max (insert (max4 w) ((\<lambda>j. magnitude (data ! j)) ` {i..<i'}))"
      by blast
    from e(1) ex show ?thesis by blast
  qed
qed

lemma findMaxAbsScalar_Max:
  assumes "\<forall>j<count. d ! j \<noteq> NaN"
  shows "findMaxAbsScalar d count
           = Num (Max (insert (Real 0) ((\<lambda>j. magnitude (d ! j)) ` {0..<count})))"
  unfolding findMaxAbsScalar_def zero_float_def by (rule stridedMax_unit[OF _ assms]) simp

lemma simd_reduce_Max:
  assumes mx: "\<And>x y. mx (Num x) (Num y) = Num (max x y)"
    and run: "vecLoop mx d count 0 (0, 0, 0, 0) = (i, v)"
    and nn: "\<forall>j<count. d ! j \<noteq> NaN"
  shows "\<exists>w. v = vnum w
           \<and> stridedMax d 1 count i (Num (max4 w))
               = Num (Max (insert (Real 0) ((\<lambda>j. magnitude (d ! j)) ` {0..<count})))"
proof -
  let ?f = "\<lambda>j. magnitude (d ! j)"
  have z: "((0, 0, 0, 0) :: vec4) = vnum (Real 0, Real 0, Real 0, Real 0)"
    by (simp add: vnum_def zero_float_def)
  from vecLoop_max[OF mx run z nn]
  obtain w where le: "i \<le> count" and v: "v = vnum w"
    and m: "max4 w = Max (insert (max4 (Real 0, Real 0, Real 0, Real 0)) (?f ` {0..<i}))"
    by auto
  have z4: "max4 (Real 0, Real 0, Real 0, Real 0) = Real 0" by (simp add: max4_def)
  have split: "{0..<count} = {0..<i} \<union> {i..<count}" using le by auto
  have "stridedMax d 1 count i (Num (max4 w))
          = Num (Max (insert (Max (insert (Real 0) (?f ` {0..<i}))) (?f ` {i..<count})))"
    by (simp only: stridedMax_unit[OF le nn] m z4)
  also have "Max (insert (Max (insert (Real 0) (?f ` {0..<i}))) (?f ` {i..<count}))
           = Max (insert (Real 0) (?f ` {0..<i} \<union> ?f ` {i..<count}))"
    by (rule Max_insert_Max) simp_all
  also have "?f ` {0..<i} \<union> ?f ` {i..<count} = ?f ` {0..<count}"
    by (simp only: split image_Un)
  finally show ?thesis using v by blast
qed

lemma findMaxAbsSSE2_Max:
  assumes nn: "\<forall>j<count. d ! j \<noteq> NaN"
  shows "findMaxAbsSSE2 d count
           = Num (Max (insert (Real 0) ((\<lambda>j. magnitude (d ! j)) ` {0..<count})))"
proof (cases "count = 0")
  case True
  then show ?thesis by (simp add: findMaxAbsSSE2_def zero_float_def)
next
  case False
  obtain i v where run: "vecLoop mm_max d count 0 (0, 0, 0, 0) = (i, v)"
    by (cases "vecLoop mm_max d count 0 (0, 0, 0, 0)")
  from simd_reduce_Max[of mm_max, OF mm_max_Num run nn]
  obtain w where v: "v = vnum w"
    and r: "stridedMax d 1 count i (Num (max4 w))
              = Num (Max (insert (Real 0) ((\<lambda>j. magnitude (d ! j)) ` {0..<count})))"
    by blast
  obtain w0 w1 w2 w3 where w: "w = (w0, w1, w2, w3)" by (cases w) auto
  have "findMaxAbsSSE2 d count = stridedMax d 1 count i (Num (max4 w))"
    using False by (simp add: findMaxAbsSSE2_def run v w vnum_def max4_def std_max_Num)
  then show ?thesis by (simp only: r)
qed

lemma findMaxAbsNeon_Max:
  assumes nn: "\<forall>j<count. d ! j \<noteq> NaN"
  shows "findMaxAbsNeon d count
           = Num (Max (insert (Real 0) ((\<lambda>j. magnitude (d ! j)) ` {0..<count})))"
proof (cases "count = 0")
  case True
  then show ?thesis by (simp add: findMaxAbsNeon_def zero_float_def)
next
  case False
  obtain i v where run: "vecLoop vmax d count 0 (0, 0, 0, 0) = (i, v)"
    by (cases "vecLoop vmax d count 0 (0, 0, 0, 0)")
  from simd_reduce_Max[of vmax, OF vmax_Num run nn]
  obtain w where v: "v = vnum w"
    and r: "stridedMax d 1 count i (Num (max4 w))
              = Num (Max (insert (Real 0) ((\<lambda>j. magnitude (d ! j)) ` {0..<count})))"
    by blast
  obtain w0 w1 w2 w3 where w: "w = (w0, w1, w2, w3)" by (cases w) auto
  have "max (max w0 w2) (max w1 w3) = max (max w0 w1) (max w2 w3)"
    by (simp only: max.assoc max.left_commute max.commute)
  then have "findMaxAbsNeon d count = stridedMax d 1 count i (Num (max4 w))"
    using False by (simp add: findMaxAbsNeon_def run v w vnum_def max4_def vmax_Num)
  then show ?thesis by (simp only: r)
qed

lemma findMaxAbs_Max:
  assumes "\<forall>j<count. d ! j \<noteq> NaN"
  shows "findMaxAbs isa d count
           = Num (Max (insert (Real 0) ((\<lambda>j. magnitude (d ! j)) ` {0..<count})))"
  using assms
  by (cases isa)
    (simp_all add: findMaxAbs_def findMaxAbsNeon_Max findMaxAbsSSE2_Max findMaxAbsScalar_Max)

text \<open>
  The scalar reduction of a block is the strided loop with step 1 over the same samples,
  whatever they are.
\<close>

lemma stridedMax_stop: "\<not> i < e \<Longrightarrow> stridedMax a C e i m = m"
  by (subst stridedMax.simps) simp

lemma stridedMax_unit_step:
  "i < e \<Longrightarrow> stridedMax a 1 e i m = stridedMax a 1 e (i + 1) (std_max m \<bar>a ! i\<bar>)"
  by (subst stridedMax.simps) simp

lemma stridedMax_drop:
  assumes "s + n \<le> length a"
  shows "stridedMax (drop s a) 1 n i m = stridedMax a 1 (s + n) (s + i) m"
proof (induction "n - i" arbitrary: i m)
  case 0
  then have a: "\<not> i < n" and b: "\<not> s + i < s + n" by simp_all
  show ?case by (simp only: stridedMax_stop[OF a] stridedMax_stop[OF b])
next
  case (Suc k)
  then have lt: "i < n" and k: "k = n - (i + 1)" by simp_all
  have lt': "s + i < s + n" using lt by simp
  have nth: "drop s a ! i = a ! (s + i)" using assms lt by simp
  have "stridedMax (drop s a) 1 n i m
          = stridedMax (drop s a) 1 n (i + 1) (std_max m \<bar>a ! (s + i)\<bar>)"
    by (simp only: stridedMax_unit_step[OF lt] nth)
  also have "\<dots> = stridedMax a 1 (s + n) (s + (i + 1)) (std_max m \<bar>a ! (s + i)\<bar>)"
    by (rule Suc.hyps(1)[OF k])
  also have "\<dots> = stridedMax a 1 (s + n) (s + i) m"
    by (simp only: stridedMax_unit_step[OF lt'] add.assoc)
  finally show ?case .
qed

text \<open>
  A worker stores what the strided loop stores when the reduction is the scalar one
  (two channels or more, or a build without SIMD), and, in the mono case with SIMD, when
  the whole buckets hold no NaN.
\<close>

lemma channelPeakMT_eq:
  assumes "0 < S" and "c < C" and "b < B" and "B * (S * C) \<le> length a"
    and H: "(\<forall>i < B * (S * C). a ! i \<noteq> NaN) \<or> C \<noteq> 1 \<or> isa = NoSIMD"
  shows "channelPeakMT isa a S C b c = channelPeak a S C b c"
proof (cases "C = 1")
  case False
  then show ?thesis by (simp add: channelPeakMT_def channelPeak_def)
next
  case True
  with assms(2) have c: "c = 0" by simp
  have whole: "Suc b * S \<le> length a"
  proof -
    have "Suc b * S \<le> B * S" using assms(3) by (intro mult_le_mono1) simp
    with assms(4) True show ?thesis by simp
  qed
  then have start: "b * S \<le> length a" and e: "min (b * S + S) (length a) = b * S + S"
    and fit: "b * S + S \<le> length a"
    by simp_all
  have mt: "channelPeakMT isa a S C b c = findMaxAbs isa (drop (b * S) a) S"
    using True c e by (simp add: channelPeakMT_def Let_def)
  have st: "channelPeak a S C b c = stridedMax a 1 (b * S + S) (b * S) 0"
    using True c e by (simp add: channelPeak_def Let_def)
  show ?thesis
  proof (cases "isa = NoSIMD")
    case True
    have "findMaxAbs isa (drop (b * S) a) S = stridedMax (drop (b * S) a) 1 S 0 0"
      using True by (simp add: findMaxAbs_def findMaxAbsScalar_def)
    also have "\<dots> = stridedMax a 1 (b * S + S) (b * S + 0) 0"
      by (rule stridedMax_drop[OF fit])
    finally show ?thesis by (simp add: mt st)
  next
    case False
    with H \<open>C = 1\<close> have nn: "\<forall>i < B * (S * C). a ! i \<noteq> NaN" by simp
    have nnd: "\<forall>j<S. drop (b * S) a ! j \<noteq> NaN"
    proof (intro allI impI)
      fix j assume j: "j < S"
      have "b * S * C + c + j * C < B * (S * C)"
        by (rule bucket_index_whole[OF assms(2) j assms(3)])
      then have "b * S + j < B * (S * C)" using \<open>C = 1\<close> c by simp
      with nn have "a ! (b * S + j) \<noteq> NaN" by simp
      then show "drop (b * S) a ! j \<noteq> NaN" using start by simp
    qed
    have img: "(\<lambda>j. magnitude (drop (b * S) a ! j)) ` {0..<S}
             = (\<lambda>k. magnitude (a ! (b * S + k))) ` {0..<S}"
      using start by (intro image_cong) simp_all
    have "channelPeakMT isa a S C b c
            = Num (Max (insert (Real 0) ((\<lambda>k. magnitude (a ! (b * S + k))) ` {0..<S})))"
      by (simp only: mt findMaxAbs_Max[OF nnd] img)
    also have "\<dots> = Num (Max ((\<lambda>k. magnitude (a ! (b * S + k))) ` {0..<S}))"
      by (simp only: Max_insert_0_magnitude[OF assms(1)])
    also have "\<dots> = spec_peak a S C b c"
      using \<open>C = 1\<close> c by (simp add: spec_peak_def)
    also have "\<dots> = channelPeak a S C b c"
      by (rule channelPeak_spec[OF assms(1-4) nn, symmetric])
    finally show ?thesis .
  qed
qed

section \<open>Facts about the single-threaded path\<close>

lemma storePeak_fold:
  assumes "n \<le> length r"
  shows "length (fold (storePeak f pixel) [0..<n] r) = length r
       \<and> (\<forall>c<length r. length (fold (storePeak f pixel) [0..<n] r ! c) = length (r ! c))
       \<and> (\<forall>c<length r. \<forall>p<length (r ! c).
             fold (storePeak f pixel) [0..<n] r ! c ! p
               = (if c < n \<and> p = pixel then f c else r ! c ! p))"
  using assms
proof (induction n)
  case 0
  show ?case by simp
next
  case (Suc n)
  let ?r = "fold (storePeak f pixel) [0..<n] r"
  from Suc have ih: "length ?r = length r"
    "\<forall>c<length r. length (?r ! c) = length (r ! c)"
    "\<forall>c<length r. \<forall>p<length (r ! c). ?r ! c ! p = (if c < n \<and> p = pixel then f c else r ! c ! p)"
    by simp_all
  have n: "n < length r" using Suc.prems by simp
  have step: "fold (storePeak f pixel) [0..<Suc n] r = ?r[n := (?r ! n)[pixel := f n]]"
    by (simp add: storePeak_def)
  show ?case
    unfolding step using ih n
    by (auto simp: nth_list_update)
qed


lemma processPixel_cells:
  assumes "shaped C B r"
  shows "shaped C B (processPixel a S C pixel r)"
    and "c < C \<Longrightarrow> p < B \<Longrightarrow>
         processPixel a S C pixel r ! c ! p = (if p = pixel then channelPeak a S C pixel c else r ! c ! p)"
proof -
  from assms have len: "C \<le> length r" "length r = C" "\<forall>c<C. length (r ! c) = B"
    by (simp_all add: shaped_def)
  note f = storePeak_fold[OF len(1), of "channelPeak a S C pixel" pixel]
  show "shaped C B (processPixel a S C pixel r)"
    using f len by (simp add: shaped_def processPixel_def)
  show "c < C \<Longrightarrow> p < B \<Longrightarrow>
         processPixel a S C pixel r ! c ! p = (if p = pixel then channelPeak a S C pixel c else r ! c ! p)"
    using f len by (simp add: processPixel_def)
qed

lemma fold_processPixel_cells:
  assumes "shaped C B r" and "n \<le> B"
  shows "shaped C B (fold (processPixel a S C) [0..<n] r)
       \<and> (\<forall>c<C. \<forall>p<B. fold (processPixel a S C) [0..<n] r ! c ! p
               = (if p < n then channelPeak a S C p c else r ! c ! p))"
  using assms(2)
proof (induction n)
  case 0
  show ?case using assms(1) by simp
next
  case (Suc n)
  let ?r = "fold (processPixel a S C) [0..<n] r"
  from Suc have sh: "shaped C B ?r"
    and cells: "\<forall>c<C. \<forall>p<B. ?r ! c ! p = (if p < n then channelPeak a S C p c else r ! c ! p)"
    by simp_all
  have step: "fold (processPixel a S C) [0..<Suc n] r = processPixel a S C n ?r" by simp
  show ?case
    unfolding step
    using processPixel_cells(1)[OF sh, where a=a and S=S and pixel=n]
      processPixel_cells(2)[OF sh, where a=a and S=S and pixel=n] cells
    by (simp add: less_Suc_eq)
qed

lemma singleLoop_done:
  "\<not> pixel < B \<Longrightarrow> singleLoop env a S C B pixel r rep = (Some r, rep)"
  by (subst singleLoop.simps) simp

lemma singleLoop_cancel:
  "pixel < B \<Longrightarrow> pixel mod 100 = 0 \<and> cancelAtPixel env pixel \<Longrightarrow>
   singleLoop env a S C B pixel r rep = (None, rep)"
  by (subst singleLoop.simps) simp

lemma singleLoop_next:
  "pixel < B \<Longrightarrow> \<not> (pixel mod 100 = 0 \<and> cancelAtPixel env pixel) \<Longrightarrow>
   singleLoop env a S C B pixel r rep =
     singleLoop env a S C B (pixel + 1) (processPixel a S C pixel r)
       (if reportDue B pixel then rep @ [progressOf (pixel + 1) B] else rep)"
  by (subst singleLoop.simps) auto

lemma singleLoop_fst:
  "fst (singleLoop env a S C B pixel r rep) =
     (if \<exists>p. pixel \<le> p \<and> p < B \<and> p mod 100 = 0 \<and> cancelAtPixel env p then None
      else Some (fold (processPixel a S C) [pixel..<B] r))"
proof (induction env a S C B pixel r rep rule: singleLoop.induct)
  case (1 env a S C B pixel r rep)
  let ?ex = "\<lambda>q. \<exists>p. q \<le> p \<and> p < B \<and> p mod 100 = 0 \<and> cancelAtPixel env p"
  show ?case
  proof (cases "pixel < B")
    case False
    then have none: "?ex pixel = False" by auto
    have nil: "[pixel..<B] = []" using False by simp
    have f1: "fst (singleLoop env a S C B pixel r rep) = Some r"
      by (simp only: singleLoop_done[OF False] fst_conv)
    have f2: "fold (processPixel a S C) [pixel..<B] r = r"
      by (simp only: nil fold_Nil id_apply)
    show ?thesis unfolding f1 f2 none by (rule if_False[symmetric])
  next
    case inb: True
    show ?thesis
    proof (cases "pixel mod 100 = 0 \<and> cancelAtPixel env pixel")
      case True
      have "?ex pixel" using True inb by (intro exI[of _ pixel]) simp
      then have ex: "?ex pixel = True" by (rule eqTrueI)
      show ?thesis by (simp only: singleLoop_cancel[OF inb True] fst_conv ex if_True)
    next
      case False
      have ex: "?ex pixel = ?ex (pixel + 1)"
      proof
        assume "?ex pixel"
        then obtain p where p: "pixel \<le> p" "p < B" "p mod 100 = 0" "cancelAtPixel env p"
          by (elim exE conjE)
        have "p \<noteq> pixel" using False p(3,4) by (intro notI) simp
        with p(1) have "pixel + 1 \<le> p" by simp
        with p(2,3,4) show "?ex (pixel + 1)" by (intro exI[of _ p] conjI)
      next
        assume "?ex (pixel + 1)"
        then obtain p where p: "pixel + 1 \<le> p" "p < B" "p mod 100 = 0" "cancelAtPixel env p"
          by (elim exE conjE)
        then have "pixel \<le> p" by simp
        with p(2,3,4) show "?ex pixel" by (intro exI[of _ p] conjI)
      qed
      have upt: "[pixel..<B] = pixel # [pixel + 1..<B]" using inb by (simp add: upt_conv_Cons)
      have fold: "fold (processPixel a S C) [pixel..<B] r
                = fold (processPixel a S C) [pixel + 1..<B] (processPixel a S C pixel r)"
        by (simp only: upt fold_Cons comp_apply)
      have ih: "fst (singleLoop env a S C B (pixel + 1) (processPixel a S C pixel r)
                  (if reportDue B pixel then rep @ [progressOf (pixel + 1) B] else rep)) =
                (if ?ex (pixel + 1) then None
                 else Some (fold (processPixel a S C) [pixel + 1..<B] (processPixel a S C pixel r)))"
        by (rule "1.IH"[OF inb False])
      show ?thesis by (simp only: singleLoop_next[OF inb False] ih ex fold)
    qed
  qed
qed

lemma singleLoop_snd:
  assumes "\<forall>p<B. p mod 100 = 0 \<longrightarrow> \<not> cancelAtPixel env p"
  shows "snd (singleLoop env a S C B pixel r rep) =
           rep @ map (\<lambda>p. progressOf (p + 1) B) (filter (reportDue B) [pixel..<B])"
  using assms
proof (induction env a S C B pixel r rep rule: singleLoop.induct)
  case (1 env a S C B pixel r rep)
  show ?case
  proof (cases "pixel < B")
    case False
    then have nil: "[pixel..<B] = []" by simp
    show ?thesis by (simp add: singleLoop_done[OF False] nil)
  next
    case True
    have "pixel mod 100 = 0 \<longrightarrow> \<not> cancelAtPixel env pixel"
      using "1.prems" True by (elim allE[of _ pixel]) (rule impI, simp)
    then have nc: "\<not> (pixel mod 100 = 0 \<and> cancelAtPixel env pixel)"
      by (intro notI) (elim conjE, simp)
    have upt: "[pixel..<B] = pixel # [pixel + 1..<B]" using True by (simp add: upt_conv_Cons)
    have ih: "snd (singleLoop env a S C B (pixel + 1) (processPixel a S C pixel r)
                  (if reportDue B pixel then rep @ [progressOf (pixel + 1) B] else rep)) =
              (if reportDue B pixel then rep @ [progressOf (pixel + 1) B] else rep)
                @ map (\<lambda>p. progressOf (p + 1) B) (filter (reportDue B) [pixel + 1..<B])"
      by (rule "1.IH"[OF True nc "1.prems"])
    show ?thesis
      by (simp only: singleLoop_next[OF True nc] ih upt) simp
  qed
qed

lemma shaped_replicate: "shaped C B (replicate C (replicate B 0))"
  by (simp add: shaped_def)

lemma envelope_eqI:
  assumes "shaped C B r" and "B = length a div (S * C)"
    and "\<forall>c<C. \<forall>b<B. r ! c ! b = spec_peak a S C b c"
  shows "r = spec_envelope a S C"
proof (rule nth_equalityI)
  show "length r = length (spec_envelope a S C)"
    using assms(1) by (simp add: shaped_def spec_envelope_def)
next
  fix c assume "c < length r"
  then have c: "c < C" using assms(1) by (simp add: shaped_def)
  show "r ! c = spec_envelope a S C ! c"
  proof (rule nth_equalityI)
    show "length (r ! c) = length (spec_envelope a S C ! c)"
      using assms(1,2) c by (simp add: shaped_def spec_envelope_def)
  next
    fix b assume "b < length (r ! c)"
    then have b: "b < B" using assms(1) c by (simp add: shaped_def)
    then show "r ! c ! b = spec_envelope a S C ! c ! b"
      using assms(2,3) c by (simp add: spec_envelope_def)
  qed
qed

text \<open>
  Every bucket processed by the strided loop, on whole buckets that hold no NaN: the
  specification's envelope.
\<close>

lemma whole_buckets:
  fixes N S C :: nat
  shows "N div S div C = N div (S * C)"
  by (simp add: div_mult2_eq)

lemma fold_processPixel_spec:
  assumes "0 < S" and "B = length a div S div C"
    and nn: "\<forall>i < B * (S * C). a ! i \<noteq> NaN"
  shows "fold (processPixel a S C) [0..<B] (replicate C (replicate B 0)) = spec_envelope a S C"
proof (rule envelope_eqI)
  let ?r = "fold (processPixel a S C) [0..<B] (replicate C (replicate B 0))"
  note cells = fold_processPixel_cells[OF shaped_replicate[of C B] le_refl, of a S]
  show "shaped C B ?r" using cells by simp
  show "B = length a div (S * C)" using assms(2) by (simp add: whole_buckets)
  have whole: "B * (S * C) \<le> length a" using assms(2) by (simp only: div_div_whole)
  show "\<forall>c<C. \<forall>b<B. ?r ! c ! b = spec_peak a S C b c"
  proof (intro allI impI)
    fix c b assume cb: "c < C" "b < B"
    then have "?r ! c ! b = channelPeak a S C b c" using cells by simp
    also have "\<dots> = spec_peak a S C b c"
      by (rule channelPeak_spec[OF assms(1) cb whole nn])
    finally show "?r ! c ! b = spec_peak a S C b c" .
  qed
qed

section \<open>Facts about the multi-threaded path\<close>

lemma processPixelMT_cells:
  assumes "shaped C B r"
  shows "shaped C B (processPixelMT isa a S C pixel r)"
    and "c < C \<Longrightarrow> p < B \<Longrightarrow>
         processPixelMT isa a S C pixel r ! c ! p
           = (if p = pixel then channelPeakMT isa a S C pixel c else r ! c ! p)"
proof -
  from assms(1) have len: "C \<le> length r" "length r = C" "\<forall>c<C. length (r ! c) = B"
    by (simp_all add: shaped_def)
  note f = storePeak_fold[OF len(1), of "channelPeakMT isa a S C pixel" pixel]
  show "shaped C B (processPixelMT isa a S C pixel r)"
    using f len by (simp add: shaped_def processPixelMT_def)
  show "c < C \<Longrightarrow> p < B \<Longrightarrow>
         processPixelMT isa a S C pixel r ! c ! p
           = (if p = pixel then channelPeakMT isa a S C pixel c else r ! c ! p)"
    using f len by (simp add: processPixelMT_def)
qed

lemma cells_ok_processPixelMT:
  assumes "shaped C B r" and "pixel < B"
    and "cells_ok isa a S C B r lo hi"
  shows "cells_ok isa a S C B (processPixelMT isa a S C pixel r) lo hi"
    and "hi = pixel \<Longrightarrow> cells_ok isa a S C B (processPixelMT isa a S C pixel r) lo (pixel + 1)"
proof -
  note cell = processPixelMT_cells(2)[OF assms(1), where isa=isa and a=a and S=S and pixel=pixel]
  show "cells_ok isa a S C B (processPixelMT isa a S C pixel r) lo hi"
    using assms(3) cell by (simp add: cells_ok_def)
  assume "hi = pixel"
  then show "cells_ok isa a S C B (processPixelMT isa a S C pixel r) lo (pixel + 1)"
    using assms(3) cell by (simp add: cells_ok_def)
qed

lemma workerStep_idle:
  "length (p_workers pl) \<le> t \<or> w_returned (p_workers pl ! t) \<Longrightarrow>
   workerStep env a S C B t pl = pl"
  by (auto simp: workerStep_def Let_def)

lemma workerStep_report:
  assumes "t < length (p_workers pl)" and "\<not> w_returned (p_workers pl ! t)"
    and "w_processed (p_workers pl ! t) = Some k"
  shows "workerStep env a S C B t pl =
     pl\<lparr>p_reported := (if reportDueMT B k then p_reported pl @ [progressOf k B] else p_reported pl),
        p_workers := (p_workers pl)[t := (p_workers pl ! t)\<lparr>w_processed := None,
                        w_pixel := w_pixel (p_workers pl ! t) + 1\<rparr>]\<rparr>"
  using assms by (simp add: workerStep_def Let_def)

lemma workerStep_return:
  assumes "t < length (p_workers pl)" and "\<not> w_returned (p_workers pl ! t)"
    and "w_processed (p_workers pl ! t) = None"
    and "\<not> w_pixel (p_workers pl ! t) < w_endPixel (p_workers pl ! t)
         \<or> (w_pixel (p_workers pl ! t) mod 100 = 0 \<and> cancelAtPixel env (w_pixel (p_workers pl ! t)))"
  shows "workerStep env a S C B t pl =
     pl\<lparr>p_workers := (p_workers pl)[t := (p_workers pl ! t)\<lparr>w_returned := True\<rparr>]\<rparr>"
  using assms by (auto simp: workerStep_def Let_def)

lemma workerStep_process:
  assumes "t < length (p_workers pl)" and "\<not> w_returned (p_workers pl ! t)"
    and "w_processed (p_workers pl ! t) = None"
    and "w_pixel (p_workers pl ! t) < w_endPixel (p_workers pl ! t)"
    and "\<not> (w_pixel (p_workers pl ! t) mod 100 = 0 \<and> cancelAtPixel env (w_pixel (p_workers pl ! t)))"
  shows "workerStep env a S C B t pl =
     pl\<lparr>p_result := processPixelMT (simd_isa env) a S C (w_pixel (p_workers pl ! t)) (p_result pl),
        pixelsProcessed := pixelsProcessed pl + 1,
        p_workers := (p_workers pl)[t := (p_workers pl ! t)\<lparr>w_processed :=
                        Some (pixelsProcessed pl + 1)\<rparr>]\<rparr>"
  using assms by (auto simp: workerStep_def Let_def)

lemma pool_inv_step:
  assumes inv: "pool_inv (simd_isa env) a S C B ppt n pl"
  shows "pool_inv (simd_isa env) a S C B ppt n (workerStep env a S C B t pl)"
proof (cases "length (p_workers pl) \<le> t \<or> w_returned (p_workers pl ! t)")
  case True
  then show ?thesis using inv by (simp only: workerStep_idle)
next
  case False
  let ?ws = "p_workers pl"
  let ?w = "?ws ! t"
  from inv have sh: "shaped C B (p_result pl)" and len: "length ?ws = n"
    and all: "\<forall>u<n. worker_ok ppt B u (?ws ! u)
                   \<and> cells_ok (simd_isa env) a S C B (p_result pl) (u * ppt) (covered (?ws ! u))"
    by (simp_all add: pool_inv_def)
  from False len have t: "t < n" "t < length ?ws" and nr: "\<not> w_returned ?w" by simp_all
  from all t(1) have ok: "worker_ok ppt B t ?w"
    and cells: "cells_ok (simd_isa env) a S C B (p_result pl) (t * ppt) (covered ?w)" by simp_all
  show ?thesis
  proof (cases "w_processed ?w")
    case (Some k)
    let ?w' = "?w\<lparr>w_processed := None, w_pixel := w_pixel ?w + 1\<rparr>"
    have ok': "worker_ok ppt B t ?w'" using ok Some by (auto simp: worker_ok_def)
    have cov: "covered ?w' = covered ?w" using Some by (simp add: covered_def)
    show ?thesis
      unfolding workerStep_report[OF t(2) nr Some] pool_inv_def
      using sh len all ok' cov cells t by (simp add: nth_list_update)
  next
    case None
    show ?thesis
    proof (cases "w_pixel ?w < w_endPixel ?w
        \<and> \<not> (w_pixel ?w mod 100 = 0 \<and> cancelAtPixel env (w_pixel ?w))")
      case False
      then have c: "\<not> w_pixel ?w < w_endPixel ?w
         \<or> (w_pixel ?w mod 100 = 0 \<and> cancelAtPixel env (w_pixel ?w))" by auto
      let ?w' = "?w\<lparr>w_returned := True\<rparr>"
      have "worker_ok ppt B t ?w' = worker_ok ppt B t ?w" by (simp add: worker_ok_def)
      then have ok': "worker_ok ppt B t ?w'" using ok by simp
      have cov: "covered ?w' = covered ?w" by (simp add: covered_def split: option.split)
      show ?thesis
        unfolding workerStep_return[OF t(2) nr None c] pool_inv_def
        using sh len all ok' cov cells t by (simp add: nth_list_update)
    next
      case True
      then have lt: "w_pixel ?w < w_endPixel ?w"
        and nc: "\<not> (w_pixel ?w mod 100 = 0 \<and> cancelAtPixel env (w_pixel ?w))" by simp_all
      let ?px = "w_pixel ?w"
      let ?r' = "processPixelMT (simd_isa env) a S C ?px (p_result pl)"
      let ?w' = "?w\<lparr>w_processed := Some (pixelsProcessed pl + 1)\<rparr>"
      have pxB: "?px < B" using ok lt by (simp add: worker_ok_def)
      have sh': "shaped C B ?r'" by (rule processPixelMT_cells(1)[OF sh])
      have ok': "worker_ok ppt B t ?w'" using ok lt by (auto simp: worker_ok_def)
      have cov: "covered ?w = ?px" "covered ?w' = ?px + 1" using None by (simp_all add: covered_def)
      have cells_t: "cells_ok (simd_isa env) a S C B ?r' (t * ppt) (covered ?w')"
        using cells_ok_processPixelMT(2)[OF sh pxB cells cov(1)] cov(2) by simp
      have cells_u: "\<forall>u<n. cells_ok (simd_isa env) a S C B ?r' (u * ppt) (covered (?ws ! u))"
        using all cells_ok_processPixelMT(1)[OF sh pxB] by simp
      show ?thesis
        unfolding workerStep_process[OF t(2) nr None lt nc] pool_inv_def
        using sh' len all ok' cells_t cells_u t by (simp add: nth_list_update)
    qed
  qed
qed

lemma pool_inv_fold:
  assumes "pool_inv (simd_isa env) a S C B ppt n pl"
  shows "pool_inv (simd_isa env) a S C B ppt n (fold (workerStep env a S C B) sched pl)"
  using assms(1)
proof (induction sched arbitrary: pl)
  case Nil
  then show ?case by simp
next
  case (Cons t sched)
  have "pool_inv (simd_isa env) a S C B ppt n (workerStep env a S C B t pl)"
    by (rule pool_inv_step[OF Cons.prems])
  from Cons.IH[OF this] show ?case by simp
qed

lemma workerStep_length: "length (p_workers (workerStep env a S C B t pl)) = length (p_workers pl)"
  by (simp add: workerStep_def Let_def split: option.split)

lemma workerStep_other:
  "u \<noteq> t \<Longrightarrow> p_workers (workerStep env a S C B t pl) ! u = p_workers pl ! u"
  by (simp add: workerStep_def Let_def split: option.split)

lemma workerStep_returned:
  "u < length (p_workers pl) \<Longrightarrow> w_returned (p_workers pl ! u) \<Longrightarrow>
   w_returned (p_workers (workerStep env a S C B t pl) ! u)"
  by (cases "u = t") (simp_all add: workerStep_idle workerStep_other)

lemma workerStep_todo:
  assumes "t < length (p_workers pl)"
  shows "todo (p_workers (workerStep env a S C B t pl) ! t) \<le> todo (p_workers pl ! t) - 1"
proof (cases "w_returned (p_workers pl ! t)")
  case True
  then show ?thesis by (simp add: workerStep_idle todo_def)
next
  case nr: False
  show ?thesis
  proof (cases "w_processed (p_workers pl ! t)")
    case (Some k)
    show ?thesis
      using assms nr Some by (simp add: workerStep_report[OF assms nr Some] todo_def)
  next
    case None
    show ?thesis
    proof (cases "w_pixel (p_workers pl ! t) < w_endPixel (p_workers pl ! t)
        \<and> \<not> (w_pixel (p_workers pl ! t) mod 100 = 0 \<and> cancelAtPixel env (w_pixel (p_workers pl ! t)))")
      case True
      then have lt: "w_pixel (p_workers pl ! t) < w_endPixel (p_workers pl ! t)"
        and nc: "\<not> (w_pixel (p_workers pl ! t) mod 100 = 0 \<and> cancelAtPixel env (w_pixel (p_workers pl ! t)))"
        by simp_all
      show ?thesis
        using assms nr None lt
        by (simp add: workerStep_process[OF assms nr None lt nc] todo_def)
    next
      case False
      then have c: "\<not> w_pixel (p_workers pl ! t) < w_endPixel (p_workers pl ! t)
         \<or> (w_pixel (p_workers pl ! t) mod 100 = 0 \<and> cancelAtPixel env (w_pixel (p_workers pl ! t)))"
        by auto
      show ?thesis
        using assms by (simp add: workerStep_return[OF assms nr None c] todo_def)
    qed
  qed
qed

lemma todo_0_returned: "todo w = 0 \<Longrightarrow> w_returned w"
  by (simp add: todo_def split: if_splits option.splits)

lemma fold_workerStep_preserves:
  assumes "P pl" and "\<And>t pl. P pl \<Longrightarrow> P (workerStep env a S C B t pl)"
  shows "P (fold (workerStep env a S C B) sched pl)"
  using assms(1)
proof (induction sched arbitrary: pl)
  case Nil
  then show ?case by simp
next
  case (Cons t sched)
  from Cons.IH[OF assms(2)[OF Cons.prems]] show ?case by simp
qed

lemma workerStep_todo_mono:
  assumes "u < length (p_workers pl)"
  shows "todo (p_workers (workerStep env a S C B t pl) ! u) \<le> todo (p_workers pl ! u)"
proof (cases "u = t")
  case True
  with workerStep_todo[of t pl env a S C B] assms show ?thesis by simp
next
  case False
  then show ?thesis by (simp add: workerStep_other)
qed

lemma fold_workerStep_bounds:
  assumes "length (p_workers pl) = n" and "\<forall>u<n. todo (p_workers pl ! u) \<le> f u"
  shows "length (p_workers (fold (workerStep env a S C B) sched pl)) = n
       \<and> (\<forall>u<n. todo (p_workers (fold (workerStep env a S C B) sched pl) ! u) \<le> f u)"
proof (rule fold_workerStep_preserves[where P = "\<lambda>pl::pool. length (p_workers pl) = n
       \<and> (\<forall>u<n. todo (p_workers pl ! u) \<le> f u)"])
  show "length (p_workers pl) = n \<and> (\<forall>u<n. todo (p_workers pl ! u) \<le> f u)"
    using assms by simp
next
  fix t and pl :: pool assume h: "length (p_workers pl) = n \<and> (\<forall>u<n. todo (p_workers pl ! u) \<le> f u)"
  show "length (p_workers (workerStep env a S C B t pl)) = n
       \<and> (\<forall>u<n. todo (p_workers (workerStep env a S C B t pl) ! u) \<le> f u)"
  proof (intro conjI allI impI)
    show "length (p_workers (workerStep env a S C B t pl)) = n"
      using h by (simp add: workerStep_length)
    fix u assume u: "u < n"
    then have "todo (p_workers (workerStep env a S C B t pl) ! u) \<le> todo (p_workers pl ! u)"
      using h by (intro workerStep_todo_mono) simp
    also have "\<dots> \<le> f u" using h u by simp
    finally show "todo (p_workers (workerStep env a S C B t pl) ! u) \<le> f u" .
  qed
qed

lemma fold_replicate_todo:
  assumes "t < length (p_workers pl)"
  shows "todo (p_workers (fold (workerStep env a S C B) (replicate k t) pl) ! t)
           \<le> todo (p_workers pl ! t) - k"
  using assms
proof (induction k arbitrary: pl)
  case 0
  show ?case by simp
next
  case (Suc k)
  let ?pl = "workerStep env a S C B t pl"
  have len: "t < length (p_workers ?pl)" using Suc.prems by (simp add: workerStep_length)
  have "todo (p_workers (fold (workerStep env a S C B) (replicate k t) ?pl) ! t)
          \<le> todo (p_workers ?pl ! t) - k"
    by (rule Suc.IH[OF len])
  also have "\<dots> \<le> (todo (p_workers pl ! t) - 1) - k"
    using workerStep_todo[OF Suc.prems, of env a S C B] by (rule diff_le_mono)
  finally show ?case by simp
qed

lemma fold_workerStep_returned:
  assumes "u < length (p_workers pl)" and "w_returned (p_workers pl ! u)"
  shows "w_returned (p_workers (fold (workerStep env a S C B) sched pl) ! u)"
proof -
  have "u < length (p_workers (fold (workerStep env a S C B) sched pl))
        \<and> w_returned (p_workers (fold (workerStep env a S C B) sched pl) ! u)"
  proof (rule fold_workerStep_preserves[where P = "\<lambda>pl::pool. u < length (p_workers pl)
        \<and> w_returned (p_workers pl ! u)"])
    show "u < length (p_workers pl) \<and> w_returned (p_workers pl ! u)" using assms by simp
  next
    fix t and pl :: pool assume "u < length (p_workers pl) \<and> w_returned (p_workers pl ! u)"
    then show "u < length (p_workers (workerStep env a S C B t pl))
        \<and> w_returned (p_workers (workerStep env a S C B t pl) ! u)"
      by (simp add: workerStep_length workerStep_returned)
  qed
  then show ?thesis by simp
qed

text \<open>After the joining steps every worker has returned.\<close>

lemma join_returns:
  assumes len: "length (p_workers pl) = n" and bound: "\<forall>u<n. todo (p_workers pl ! u) \<le> K"
    and m: "m \<le> n"
  shows "\<forall>u<m. w_returned
           (p_workers (fold (workerStep env a S C B) (concat (map (replicate K) [0..<m])) pl) ! u)"
  using m
proof (induction m)
  case 0
  show ?case by simp
next
  case (Suc m)
  let ?step = "workerStep env a S C B"
  let ?pl1 = "fold ?step (concat (map (replicate K) [0..<m])) pl"
  let ?pl2 = "fold ?step (replicate K m) ?pl1"
  have eq: "fold ?step (concat (map (replicate K) [0..<Suc m])) pl = ?pl2" by simp
  from fold_workerStep_bounds[OF len bound, of env a S C B "concat (map (replicate K) [0..<m])"]
  have len1: "length (p_workers ?pl1) = n" and b1: "\<forall>u<n. todo (p_workers ?pl1 ! u) \<le> K"
    by simp_all
  from Suc have ih: "\<forall>u<m. w_returned (p_workers ?pl1 ! u)" by simp
  have mn: "m < n" using Suc.prems by simp
  show ?case unfolding eq
  proof (intro allI impI)
    fix u assume u: "u < Suc m"
    show "w_returned (p_workers ?pl2 ! u)"
    proof (cases "u = m")
      case True
      have "todo (p_workers ?pl2 ! m) \<le> todo (p_workers ?pl1 ! m) - K"
        using mn len1 by (intro fold_replicate_todo) simp
      also have "\<dots> = 0" using b1 mn by simp
      finally show ?thesis using True by (simp add: todo_0_returned)
    next
      case False
      with u have um: "u < m" by simp
      with ih have r: "w_returned (p_workers ?pl1 ! u)" by simp
      have l: "u < length (p_workers ?pl1)" using um mn len1 by simp
      show ?thesis by (rule fold_workerStep_returned[OF l r])
    qed
  qed
qed

lemma never_polled_setD:
  "never_polled_set env B \<Longrightarrow> p < B \<Longrightarrow> \<not> (p mod 100 = 0 \<and> cancelAtPixel env p)"
  by (auto simp: never_polled_set_def)

lemma ran_out_step:
  assumes inv: "pool_inv (simd_isa env) a S C B ppt n pl" and nc: "never_polled_set env B"
    and ro: "\<forall>u<n. ran_out (p_workers pl ! u)"
  shows "\<forall>u<n. ran_out (p_workers (workerStep env a S C B t pl) ! u)"
proof (intro allI impI)
  fix u assume u: "u < n"
  from inv have len: "length (p_workers pl) = n" by (simp add: pool_inv_def)
  show "ran_out (p_workers (workerStep env a S C B t pl) ! u)"
  proof (cases "u = t")
    case False
    then show ?thesis using ro u by (simp add: workerStep_other)
  next
    case True
    let ?w = "p_workers pl ! t"
    have t: "t < length (p_workers pl)" using u True len by simp
    from inv u True have ok: "worker_ok ppt B t ?w" by (simp add: pool_inv_def)
    show ?thesis
    proof (cases "w_returned ?w")
      case True
      then show ?thesis using ro u \<open>u = t\<close> by (simp add: workerStep_idle)
    next
      case nr: False
      show ?thesis
      proof (cases "w_processed ?w")
        case (Some k)
        show ?thesis using t nr \<open>u = t\<close>
          by (simp add: workerStep_report[OF t nr Some] ran_out_def)
      next
        case None
        show ?thesis
        proof (cases "w_pixel ?w < w_endPixel ?w")
          case lt: True
          then have "w_pixel ?w < B" using ok by (simp add: worker_ok_def)
          then have ncp: "\<not> (w_pixel ?w mod 100 = 0 \<and> cancelAtPixel env (w_pixel ?w))"
            by (rule never_polled_setD[OF nc])
          show ?thesis using t nr \<open>u = t\<close>
            by (simp add: workerStep_process[OF t nr None lt ncp] ran_out_def)
        next
          case False
          then have c: "\<not> w_pixel ?w < w_endPixel ?w
            \<or> (w_pixel ?w mod 100 = 0 \<and> cancelAtPixel env (w_pixel ?w))" by simp
          show ?thesis using t False None \<open>u = t\<close>
            by (simp add: workerStep_return[OF t nr None c] ran_out_def)
        qed
      qed
    qed
  qed
qed

lemma started_pool_inv:
  assumes "shaped C B r"
  shows "pool_inv isa a S C B ppt n
           \<lparr>p_result = r, pixelsProcessed = 0, p_reported = [],
            p_workers = map (startWorker ppt B) [0..<n]\<rparr>"
    and "\<forall>u<n. ran_out (map (startWorker ppt B) [0..<n] ! u)"
    and "\<forall>u<n. todo (map (startWorker ppt B) [0..<n] ! u) \<le> 2 * ppt + 1"
proof -
  show "pool_inv isa a S C B ppt n
           \<lparr>p_result = r, pixelsProcessed = 0, p_reported = [],
            p_workers = map (startWorker ppt B) [0..<n]\<rparr>"
    using assms
    by (auto simp: pool_inv_def worker_ok_def cells_ok_def covered_def startWorker_def Let_def)
  show "\<forall>u<n. ran_out (map (startWorker ppt B) [0..<n] ! u)"
    by (simp add: startWorker_def ran_out_def Let_def)
  have "\<And>x. min (x + ppt) B - x \<le> ppt" by arith
  then have "\<And>u. min (u * ppt + ppt) B - u * ppt \<le> ppt" .
  then show "\<forall>u<n. todo (map (startWorker ppt B) [0..<n] ! u) \<le> 2 * ppt + 1"
    by (simp add: startWorker_def todo_def Let_def)
qed

text \<open>The partition covers every bucket.\<close>

lemma partition_covers:
  fixes B n :: nat
  assumes "0 < n" and "p < B"
  shows "0 < (B + n - 1) div n" and "p div ((B + n - 1) div n) < n"
proof -
  let ?ppt = "(B + n - 1) div n"
  have "B \<le> n * ?ppt"
  proof -
    have "B + n - 1 < n * ?ppt + n"
      using assms(1) by (metis add.commute dividend_less_times_div mult.commute)
    then show ?thesis by simp
  qed
  with assms(2) have lt: "p < n * ?ppt" by simp
  then show pos: "0 < ?ppt" by (cases "?ppt = 0") simp_all
  show "p div ?ppt < n" using lt pos by (simp add: less_mult_imp_div_less mult.commute)
qed

text \<open>
  When no poll reads the flag as set, every worker runs to the end of its range, and every
  cell holds what a worker stores in it.
\<close>

lemma runWorkers_cells:
  assumes n: "0 < n" and nc: "never_polled_set env B"
  shows "shaped C B (p_result (runWorkers env a S C B n (replicate C (replicate B 0))))"
    and "\<forall>c<C. \<forall>b<B. p_result (runWorkers env a S C B n (replicate C (replicate B 0))) ! c ! b
                          = channelPeakMT (simd_isa env) a S C b c"
proof -
  let ?ppt = "(B + n - 1) div n"
  let ?K = "2 * ?ppt + 1"
  let ?step = "workerStep env a S C B"
  let ?start = "\<lparr>p_result = replicate C (replicate B 0), pixelsProcessed = 0, p_reported = [],
                 p_workers = map (startWorker ?ppt B) [0..<n]\<rparr>"
  let ?pl1 = "fold ?step (worker_schedule env) ?start"
  let ?pl = "fold ?step (concat (map (replicate ?K) [0..<n])) ?pl1"
  have run: "runWorkers env a S C B n (replicate C (replicate B 0)) = ?pl"
    unfolding runWorkers_def joinSteps_def Let_def by (simp only: fold_append comp_apply)
  note init1 = started_pool_inv(1)[OF shaped_replicate[of C B], where isa="simd_isa env"
      and a=a and S=S and ppt="?ppt" and n=n]
  note init2 = started_pool_inv(2)[OF shaped_replicate[of C B], where ppt="?ppt" and n=n]
  note init3 = started_pool_inv(3)[OF shaped_replicate[of C B], where ppt="?ppt" and n=n]
  define I where "I = (\<lambda>pl::pool. pool_inv (simd_isa env) a S C B ?ppt n pl
                        \<and> (\<forall>u<n. ran_out (p_workers pl ! u)))"
  have I_step: "\<And>t pl. I pl \<Longrightarrow> I (?step t pl)"
    unfolding I_def using pool_inv_step ran_out_step[OF _ nc] by blast
  have "I ?start" unfolding I_def using init1 init2 by simp
  then have "I ?pl1"
    by (rule fold_workerStep_preserves[where P=I and env=env and a=a and S=S and C=C and B=B])
       (rule I_step)
  then have "I ?pl"
    by (rule fold_workerStep_preserves[where P=I and env=env and a=a and S=S and C=C and B=B])
       (rule I_step)
  then have inv: "pool_inv (simd_isa env) a S C B ?ppt n ?pl"
    and ro: "\<forall>u<n. ran_out (p_workers ?pl ! u)"
    by (simp_all add: I_def)
  have b0: "\<forall>u<n. todo (p_workers ?start ! u) \<le> ?K" using init3 by simp
  have len0: "length (p_workers ?start) = n" by simp
  from fold_workerStep_bounds[OF len0 b0, of env a S C B "worker_schedule env"]
  have len1: "length (p_workers ?pl1) = n" and b1: "\<forall>u<n. todo (p_workers ?pl1 ! u) \<le> ?K"
    by simp_all
  have ret: "\<forall>u<n. w_returned (p_workers ?pl ! u)"
    by (rule join_returns[OF len1 b1 le_refl])
  from inv have sh: "shaped C B (p_result ?pl)" by (simp add: pool_inv_def)
  have cells: "\<forall>c<C. \<forall>b<B. p_result ?pl ! c ! b = channelPeakMT (simd_isa env) a S C b c"
  proof (intro allI impI)
    fix c b assume cb: "c < C" "b < B"
    let ?t = "b div ?ppt"
    let ?w = "p_workers ?pl ! ?t"
    have pos: "0 < ?ppt" and t: "?t < n" using partition_covers[OF n cb(2)] by simp_all
    from inv t have ok: "worker_ok ?ppt B ?t ?w"
      and ck: "cells_ok (simd_isa env) a S C B (p_result ?pl) (?t * ?ppt) (covered ?w)"
      by (simp_all add: pool_inv_def)
    from ro ret t have fin: "w_endPixel ?w \<le> w_pixel ?w" "w_processed ?w = None"
      by (simp_all add: ran_out_def)
    have lo: "?t * ?ppt \<le> b" by simp
    have "b < ?t * ?ppt + ?ppt" using pos by (metis dividend_less_div_times mult.commute add.commute)
    with cb(2) ok have "b < w_endPixel ?w" by (simp add: worker_ok_def)
    with fin have hi: "b < covered ?w" by (simp add: covered_def)
    from ck lo hi cb show "p_result ?pl ! c ! b = channelPeakMT (simd_isa env) a S C b c"
      by (simp add: cells_ok_def)
  qed
  show "shaped C B (p_result (runWorkers env a S C B n (replicate C (replicate B 0))))"
    using sh by (simp only: run)
  show "\<forall>c<C. \<forall>b<B. p_result (runWorkers env a S C B n (replicate C (replicate B 0))) ! c ! b
                          = channelPeakMT (simd_isa env) a S C b c"
    using cells by (simp only: run)
qed

text \<open>On whole buckets that hold no NaN the workers leave the specification's envelope.\<close>

lemma runWorkers_final:
  assumes S: "0 < S" and B: "B = length a div S div C" and n: "0 < n"
    and nc: "never_polled_set env B"
    and nn: "\<forall>i < B * (S * C). a ! i \<noteq> NaN"
  shows "p_result (runWorkers env a S C B n (replicate C (replicate B 0))) = spec_envelope a S C"
proof -
  let ?r = "p_result (runWorkers env a S C B n (replicate C (replicate B 0)))"
  have whole: "B * (S * C) \<le> length a" using B by (simp only: div_div_whole)
  note rc = runWorkers_cells[OF n nc, where a=a and S=S and C=C]
  have cells: "\<forall>c<C. \<forall>b<B. ?r ! c ! b = spec_peak a S C b c"
  proof (intro allI impI)
    fix c b assume cb: "c < C" "b < B"
    have "?r ! c ! b = channelPeakMT (simd_isa env) a S C b c" using rc(2) cb by simp
    also have "\<dots> = channelPeak a S C b c"
      by (rule channelPeakMT_eq[OF S cb whole]) (rule disjI1, rule nn)
    also have "\<dots> = spec_peak a S C b c"
      by (rule channelPeak_spec[OF S cb whole nn])
    finally show "?r ! c ! b = spec_peak a S C b c" .
  qed
  show ?thesis
    using rc(1) _ cells by (rule envelope_eqI) (simp add: B whole_buckets)
qed

section \<open>Facts about processWaveform\<close>

lemma processWaveform_rejected:
  "rejected a S C \<Longrightarrow> processWaveform env a S C = ([], [])"
  by (auto simp: processWaveform_def rejected_def numPixelsOf_def Let_def)

lemma processWaveform_single:
  assumes "\<not> rejected a S C" and "min (hardware_concurrency env) (numPixelsOf a S C) \<le> 1"
  shows "processWaveform env a S C =
     (case singleLoop env a (nat S) (nat C) (numPixelsOf a S C) 0
             (replicate (nat C) (replicate (numPixelsOf a S C) 0)) [] of
        (None, reported) \<Rightarrow> ([], reported)
      | (Some filled, reported) \<Rightarrow>
          (filled, reported @ [progressOf (numPixelsOf a S C) (numPixelsOf a S C)]))"
  using assms unfolding processWaveform_def rejected_def numPixelsOf_def Let_def by simp

lemma processWaveform_threaded:
  assumes "\<not> rejected a S C" and "\<not> min (hardware_concurrency env) (numPixelsOf a S C) \<le> 1"
  shows "processWaveform env a S C =
     (let pl = runWorkers env a (nat S) (nat C) (numPixelsOf a S C)
                 (min (hardware_concurrency env) (numPixelsOf a S C))
                 (replicate (nat C) (replicate (numPixelsOf a S C) 0))
      in if cancelAfterJoin env then ([], p_reported pl)
         else (p_result pl, p_reported pl @ [progressOf (numPixelsOf a S C) (numPixelsOf a S C)]))"
  using assms unfolding processWaveform_def rejected_def numPixelsOf_def Let_def by simp

lemma not_cancelled_never_polled: "not_cancelled env \<Longrightarrow> never_polled_set env B"
  by (simp add: not_cancelled_def never_polled_set_def)

lemma singleLoop_uncancelled:
  assumes "never_polled_set env B"
  shows "singleLoop env a S C B 0 r [] =
           (Some (fold (processPixel a S C) [0..<B] r),
            map (\<lambda>p. progressOf (p + 1) B) (filter (reportDue B) [0..<B]))"
proof -
  have none: "\<not> (\<exists>p. 0 \<le> p \<and> p < B \<and> p mod 100 = 0 \<and> cancelAtPixel env p)"
    using assms by (auto simp: never_polled_set_def)
  have f: "fst (singleLoop env a S C B 0 r []) = Some (fold (processPixel a S C) [0..<B] r)"
    by (simp only: singleLoop_fst none if_False)
  have "\<forall>p<B. p mod 100 = 0 \<longrightarrow> \<not> cancelAtPixel env p"
    using assms by (simp add: never_polled_set_def)
  then have s: "snd (singleLoop env a S C B 0 r []) =
      [] @ map (\<lambda>p. progressOf (p + 1) B) (filter (reportDue B) [0..<B])"
    by (rule singleLoop_snd)
  show ?thesis using f s by (simp add: prod_eq_iff)
qed

lemma processWaveform_single_fst:
  assumes "\<not> rejected a S C" and "min (hardware_concurrency env) (numPixelsOf a S C) \<le> 1"
  shows "fst (processWaveform env a S C) =
     (if \<exists>p. p < numPixelsOf a S C \<and> p mod 100 = 0 \<and> cancelAtPixel env p then []
      else fold (processPixel a (nat S) (nat C)) [0..<numPixelsOf a S C]
             (replicate (nat C) (replicate (numPixelsOf a S C) 0)))"
proof -
  let ?B = "numPixelsOf a S C"
  let ?init = "replicate (nat C) (replicate ?B 0)"
  let ?run = "singleLoop env a (nat S) (nat C) ?B 0 ?init []"
  have ex: "(\<exists>p. 0 \<le> p \<and> p < ?B \<and> p mod 100 = 0 \<and> cancelAtPixel env p)
          = (\<exists>p. p < ?B \<and> p mod 100 = 0 \<and> cancelAtPixel env p)" by simp
  have f: "fst ?run = (if \<exists>p. p < ?B \<and> p mod 100 = 0 \<and> cancelAtPixel env p then None
                       else Some (fold (processPixel a (nat S) (nat C)) [0..<?B] ?init))"
    by (simp only: singleLoop_fst ex)
  obtain res rep where run: "?run = (res, rep)" by (cases ?run)
  show ?thesis
  proof (cases "\<exists>p. p < ?B \<and> p mod 100 = 0 \<and> cancelAtPixel env p")
    case True
    with f run have "res = None" by simp
    then have "fst (processWaveform env a S C) = []"
      by (simp add: processWaveform_single[OF assms] run)
    then show ?thesis using True by (simp only: if_True)
  next
    case False
    with f run have "res = Some (fold (processPixel a (nat S) (nat C)) [0..<?B] ?init)" by simp
    then have "fst (processWaveform env a S C)
                 = fold (processPixel a (nat S) (nat C)) [0..<?B] ?init"
      by (simp add: processWaveform_single[OF assms] run)
    then show ?thesis using False by (simp only: if_False)
  qed
qed

lemma processWaveform_threaded_fst:
  assumes "\<not> rejected a S C" and "\<not> min (hardware_concurrency env) (numPixelsOf a S C) \<le> 1"
  shows "fst (processWaveform env a S C) =
     (if cancelAfterJoin env then []
      else p_result (runWorkers env a (nat S) (nat C) (numPixelsOf a S C)
                 (min (hardware_concurrency env) (numPixelsOf a S C))
                 (replicate (nat C) (replicate (numPixelsOf a S C) 0))))"
  by (simp add: processWaveform_threaded[OF assms] Let_def)

text \<open>
  The cells of the envelope a call returns when no read of the flag finds it set: on the
  single-threaded path what the strided loop computes, on the multi-threaded path what a
  worker computes.
\<close>

lemma processWaveform_cells:
  assumes ok: "\<not> rejected a S C" and np: "never_polled_set env (numPixelsOf a S C)"
    and nj: "\<not> cancelAfterJoin env"
  shows "shaped (nat C) (numPixelsOf a S C) (fst (processWaveform env a S C))"
    and "\<forall>c < nat C. \<forall>b < numPixelsOf a S C.
           fst (processWaveform env a S C) ! c ! b =
             (if min (hardware_concurrency env) (numPixelsOf a S C) \<le> 1
              then channelPeak a (nat S) (nat C) b c
              else channelPeakMT (simd_isa env) a (nat S) (nat C) b c)"
proof -
  let ?B = "numPixelsOf a S C"
  let ?init = "replicate (nat C) (replicate ?B 0)"
  have both: "shaped (nat C) ?B (fst (processWaveform env a S C))
    \<and> (\<forall>c < nat C. \<forall>b < ?B.
           fst (processWaveform env a S C) ! c ! b =
             (if min (hardware_concurrency env) ?B \<le> 1
              then channelPeak a (nat S) (nat C) b c
              else channelPeakMT (simd_isa env) a (nat S) (nat C) b c))"
  proof (cases "min (hardware_concurrency env) ?B \<le> 1")
    case True
    have nex: "\<not> (\<exists>p. p < ?B \<and> p mod 100 = 0 \<and> cancelAtPixel env p)"
      using np by (auto simp: never_polled_set_def)
    have r: "fst (processWaveform env a S C) = fold (processPixel a (nat S) (nat C)) [0..<?B] ?init"
      by (simp only: processWaveform_single_fst[OF ok True] nex if_False)
    note cells = fold_processPixel_cells[OF shaped_replicate[of "nat C" ?B] le_refl,
        of a "nat S"]
    show ?thesis using cells True by (simp add: r)
  next
    case False
    then have n: "0 < min (hardware_concurrency env) ?B" by linarith
    have r: "fst (processWaveform env a S C)
        = p_result (runWorkers env a (nat S) (nat C) ?B (min (hardware_concurrency env) ?B) ?init)"
      using nj by (simp add: processWaveform_threaded_fst[OF ok False])
    note rc = runWorkers_cells[OF n np, where a=a and S="nat S" and C="nat C"]
    show ?thesis using rc False by (simp add: r)
  qed
  from both show "shaped (nat C) ?B (fst (processWaveform env a S C))" by (rule conjunct1)
  from both show "\<forall>c < nat C. \<forall>b < ?B.
           fst (processWaveform env a S C) ! c ! b =
             (if min (hardware_concurrency env) ?B \<le> 1
              then channelPeak a (nat S) (nat C) b c
              else channelPeakMT (simd_isa env) a (nat S) (nat C) b c)" by (rule conjunct2)
qed

lemma shaped_cells_eq:
  assumes "shaped C B r" and "shaped C B r'" and "\<forall>c<C. \<forall>b<B. r ! c ! b = r' ! c ! b"
  shows "r = r'"
proof (rule nth_equalityI)
  show "length r = length r'" using assms(1,2) by (simp add: shaped_def)
next
  fix c assume "c < length r"
  then have c: "c < C" using assms(1) by (simp add: shaped_def)
  show "r ! c = r' ! c"
  proof (rule nth_equalityI)
    show "length (r ! c) = length (r' ! c)" using assms(1,2) c by (simp add: shaped_def)
  next
    fix b assume "b < length (r ! c)"
    then have "b < B" using assms(1) c by (simp add: shaped_def)
    with assms(3) c show "r ! c ! b = r' ! c ! b" by simp
  qed
qed

lemma whole_buckets_numPixels:
  "numPixelsOf a S C = length a div (nat S * nat C)"
  by (simp add: numPixelsOf_def whole_buckets)

lemma nan_free_nth:
  assumes "nan_free a S C"
  shows "\<forall>i < numPixelsOf a S C * (nat S * nat C). a ! i \<noteq> NaN"
proof (intro allI impI)
  fix i assume i: "i < numPixelsOf a S C * (nat S * nat C)"
  let ?n = "length a div (nat S * nat C) * (nat S * nat C)"
  have i': "i < ?n" using i by (simp only: whole_buckets_numPixels)
  have "?n \<le> length a" by simp
  with i' have "i < length (take ?n a)" by simp
  then have "take ?n a ! i \<in> set (take ?n a)" by (rule nth_mem)
  moreover have "take ?n a ! i = a ! i" using i' by simp
  ultimately show "a ! i \<noteq> NaN" using assms by (auto simp: nan_free_def)
qed

text \<open>
  The cells are those of the strided loop when the reduction of the workers is the scalar
  one or the whole buckets hold no NaN.
\<close>

lemma processWaveform_scalar_cells:
  assumes nc: "not_cancelled env" and ok: "\<not> rejected a S C"
    and H: "nan_free a S C \<or> C \<noteq> 1 \<or> simd_isa env = NoSIMD"
  shows "shaped (nat C) (numPixelsOf a S C) (fst (processWaveform env a S C))"
    and "\<forall>c < nat C. \<forall>b < numPixelsOf a S C.
           fst (processWaveform env a S C) ! c ! b = channelPeak a (nat S) (nat C) b c"
proof -
  let ?B = "numPixelsOf a S C"
  have np: "never_polled_set env ?B" by (rule not_cancelled_never_polled[OF nc])
  have nj: "\<not> cancelAfterJoin env" using nc by (simp add: not_cancelled_def)
  note cells = processWaveform_cells[OF ok np nj]
  show "shaped (nat C) ?B (fst (processWaveform env a S C))" by (rule cells(1))
  have S: "0 < nat S" using ok by (simp add: rejected_def)
  have whole: "?B * (nat S * nat C) \<le> length a"
    by (simp only: numPixelsOf_def div_div_whole)
  have H': "(\<forall>i < ?B * (nat S * nat C). a ! i \<noteq> NaN) \<or> nat C \<noteq> 1 \<or> simd_isa env = NoSIMD"
  proof -
    from H consider "nan_free a S C" | "C \<noteq> 1" | "simd_isa env = NoSIMD" by blast
    then show ?thesis
    proof cases
      case 1
      then show ?thesis using nan_free_nth by blast
    next
      case 2
      moreover have "0 < C" using ok by (simp add: rejected_def)
      ultimately have "nat C \<noteq> 1" by simp
      then show ?thesis by simp
    next
      case 3
      then show ?thesis by simp
    qed
  qed
  show "\<forall>c < nat C. \<forall>b < ?B.
           fst (processWaveform env a S C) ! c ! b = channelPeak a (nat S) (nat C) b c"
  proof (intro allI impI)
    fix c b assume cb: "c < nat C" "b < ?B"
    have "channelPeakMT (simd_isa env) a (nat S) (nat C) b c = channelPeak a (nat S) (nat C) b c"
      by (rule channelPeakMT_eq[OF S cb whole H'])
    with cells(2) cb show "fst (processWaveform env a S C) ! c ! b
        = channelPeak a (nat S) (nat C) b c" by simp
  qed
qed

text \<open>
  An uncancelled call on a buffer whose whole buckets hold no NaN returns the
  specification's envelope, on either path.
\<close>

lemma processWaveform_uncancelled:
  assumes "not_cancelled env" and nf: "nan_free a S C"
  shows "fst (processWaveform env a S C) =
           (if rejected a S C then [] else spec_envelope a (nat S) (nat C))"
proof (cases "rejected a S C")
  case True
  then show ?thesis by (simp add: processWaveform_rejected)
next
  case False
  let ?B = "numPixelsOf a S C"
  have S: "0 < nat S" using False by (simp add: rejected_def)
  have whole: "?B * (nat S * nat C) \<le> length a"
    by (simp only: numPixelsOf_def div_div_whole)
  note nn = nan_free_nth[OF nf]
  note cells = processWaveform_scalar_cells[OF assms(1) False disjI1[OF nf]]
  have "fst (processWaveform env a S C) = spec_envelope a (nat S) (nat C)"
  proof (rule envelope_eqI[OF cells(1)])
    show "?B = length a div (nat S * nat C)" by (rule whole_buckets_numPixels)
    show "\<forall>c < nat C. \<forall>b < ?B.
            fst (processWaveform env a S C) ! c ! b = spec_peak a (nat S) (nat C) b c"
    proof (intro allI impI)
      fix c b assume cb: "c < nat C" "b < ?B"
      have "fst (processWaveform env a S C) ! c ! b = channelPeak a (nat S) (nat C) b c"
        using cells(2) cb by simp
      also have "\<dots> = spec_peak a (nat S) (nat C) b c"
        by (rule channelPeak_spec[OF S cb whole nn])
      finally show "fst (processWaveform env a S C) ! c ! b = spec_peak a (nat S) (nat C) b c" .
    qed
  qed
  then show ?thesis using False by simp
qed



lemma rejected_iff:
  "rejected pcm S C \<longleftrightarrow>
     (pcm = [] \<or> S \<le> 0 \<or> C \<le> 0 \<or> length pcm div (nat S * nat C) = 0)"
  by (simp add: rejected_def numPixelsOf_def whole_buckets)

section \<open>Claims about processWaveform without cancellation\<close>







section \<open>Cancellation inside processWaveform\<close>

lemma uncancelled_not_cancelled: "not_cancelled (uncancelled env)"
  by (simp add: uncancelled_def not_cancelled_def)

text \<open>
  If the flag, once a poll would read it as set, is still set after the join, a call
  returns the empty envelope or the envelope of the same call with a flag that is never
  set, and the empty one when a poll reads the flag as set. The single-threaded path needs
  no such condition.
\<close>

lemma processWaveform_cancel_latched:
  assumes "min (hardware_concurrency env) (numPixelsOf a S C) \<le> 1
           \<or> ((\<exists>p. p < numPixelsOf a S C \<and> p mod 100 = 0 \<and> cancelAtPixel env p)
                \<longrightarrow> cancelAfterJoin env)"
  shows "(fst (processWaveform env a S C) = []
          \<or> fst (processWaveform env a S C) = fst (processWaveform (uncancelled env) a S C))
       \<and> ((\<exists>p. p < numPixelsOf a S C \<and> p mod 100 = 0 \<and> cancelAtPixel env p)
            \<longrightarrow> fst (processWaveform env a S C) = [])"
proof (cases "rejected a S C")
  case True
  then show ?thesis by (simp add: processWaveform_rejected)
next
  case ok: False
  let ?B = "numPixelsOf a S C"
  let ?env0 = "uncancelled env"
  have hw0: "hardware_concurrency ?env0 = hardware_concurrency env"
    and isa0: "simd_isa ?env0 = simd_isa env"
    and nex0: "\<not> (\<exists>p. p < ?B \<and> p mod 100 = 0 \<and> cancelAtPixel ?env0 p)"
    and nj0: "\<not> cancelAfterJoin ?env0"
    by (simp_all add: uncancelled_def)
  have np0: "never_polled_set ?env0 ?B" using nex0 by (auto simp: never_polled_set_def)
  show ?thesis
  proof (cases "min (hardware_concurrency env) ?B \<le> 1")
    case True
    then have True0: "min (hardware_concurrency ?env0) ?B \<le> 1" by (simp only: hw0)
    show ?thesis
      by (simp add: processWaveform_single_fst[OF ok True] processWaveform_single_fst[OF ok True0]
          nex0)
  next
    case mt: False
    with assms have latch: "(\<exists>p. p < ?B \<and> p mod 100 = 0 \<and> cancelAtPixel env p)
                \<longrightarrow> cancelAfterJoin env" by simp
    show ?thesis
    proof (cases "cancelAfterJoin env")
      case True
      then show ?thesis by (simp add: processWaveform_threaded_fst[OF ok mt])
    next
      case False
      with latch have nex: "\<not> (\<exists>p. p < ?B \<and> p mod 100 = 0 \<and> cancelAtPixel env p)" by auto
      then have np: "never_polled_set env ?B" by (auto simp: never_polled_set_def)
      note c = processWaveform_cells[OF ok np False]
      note c0 = processWaveform_cells[OF ok np0 nj0]
      have full: "fst (processWaveform env a S C) = fst (processWaveform ?env0 a S C)"
        by (rule shaped_cells_eq[OF c(1) c0(1)]) (simp add: c(2) c0(2) hw0 isa0)
      show ?thesis
      proof (intro conjI impI)
        show "fst (processWaveform env a S C) = []
              \<or> fst (processWaveform env a S C) = fst (processWaveform ?env0 a S C)"
          using full by (rule disjI2)
        assume "\<exists>p. p < ?B \<and> p mod 100 = 0 \<and> cancelAtPixel env p"
        with nex show "fst (processWaveform env a S C) = []" by (rule notE)
      qed
    qed
  qed
qed

text \<open>Every bucket index has a poll at most 99 buckets before it.\<close>

lemma poll_every_100: "\<exists>q\<le>(p::nat). p < q + 100 \<and> q mod 100 = 0"
proof (intro exI[of _ "p - p mod 100"] conjI)
  show "p - p mod 100 \<le> p" by simp
  have "p mod 100 < 100" by simp
  then show "p < p - p mod 100 + 100" by simp
  show "(p - p mod 100) mod 100 = 0" by (simp add: minus_mod_eq_mult_div)
qed

text \<open>
  C4. The claim: \<open>processWaveform\<close> polls the flag at least every 100 buckets and, whenever
  it observes the flag set, returns the empty envelope, never a partly filled one. The
  multi-threaded path breaks it: a worker that reads the flag as set only leaves its
  loop, and the call decides by reading the flag again after the join. Here worker 0
  reads the flag as set at pixel 0 and stops, worker 1 stores bucket 1, the flag is clear
  after the join, and the call returns an envelope whose bucket 0 was never computed. The
  single-threaded path returns the empty envelope on the same reads.
\<close>

theorem processWaveform_cancel_partial:
  "cancelAtPixel env_unlatched 0
   \<and> fst (processWaveform env_unlatched [Fin (1/2), Fin (1/2)] 1 1) = [[0, Fin (1/2)]]
   \<and> fst (processWaveform (env_unlatched\<lparr>hardware_concurrency := 1\<rparr>) [Fin (1/2), Fin (1/2)] 1 1) = []
   \<and> spec_envelope [Fin (1/2), Fin (1/2)] (nat 1) (nat 1) = [[Fin (1/2), Fin (1/2)]]"
proof (intro conjI)
  show "cancelAtPixel env_unlatched 0" by (simp add: env_unlatched_def)
  show "fst (processWaveform env_unlatched [Fin (1/2), Fin (1/2)] 1 1) = [[0, Fin (1/2)]]"
    by code_simp
  show "fst (processWaveform (env_unlatched\<lparr>hardware_concurrency := 1\<rparr>) [Fin (1/2), Fin (1/2)] 1 1) = []"
    by code_simp
  have nc: "not_cancelled env_single" by (simp add: not_cancelled_def env_single_def)
  have nf: "nan_free [Fin (1/2), Fin (1/2)] 1 1" by (simp add: nan_free_def)
  from processWaveform_uncancelled[OF nc nf]
  have "spec_envelope [Fin (1/2), Fin (1/2)] (nat 1) (nat 1)
          = fst (processWaveform env_single [Fin (1/2), Fin (1/2)] 1 1)"
    by (simp add: rejected_iff)
  also have "\<dots> = [[Fin (1/2), Fin (1/2)]]" by code_simp
  finally show "spec_envelope [Fin (1/2), Fin (1/2)] (nat 1) (nat 1) = [[Fin (1/2), Fin (1/2)]]" .
qed

section \<open>Facts and claims about extract\<close>

lemma updateProgress_0: "progress_field (updateProgress 0 st) = 0"
  "delivered (updateProgress 0 st) = delivered st @ [0]"
  by (simp_all add: updateProgress_def)

lemma extract_run_before:
  "cancelledBeforeDecode env \<Longrightarrow>
   extract_run decode env config =
     (Inr [], updateProgress 0 (updateProgress 0.1 \<lparr>progress_field = 0, delivered = []\<rparr>))"
  by (simp add: extract_run_def)

lemma extract_run_failed:
  "\<not> cancelledBeforeDecode env \<Longrightarrow> decode config = Inl e \<Longrightarrow>
   extract_run decode env config =
     (Inl e, (updateProgress 0.1 \<lparr>progress_field = 0, delivered = []\<rparr>)\<lparr>progress_field := 0\<rparr>)"
  by (simp add: extract_run_def)

lemma extract_run_decoded:
  assumes "\<not> cancelledBeforeDecode env" and "decode config = Inr audioData"
  shows "extract_run decode env config =
    (if cancelledAfterDecode env
     then (Inr [], updateProgress 0 (updateProgress 0.1 \<lparr>progress_field = 0, delivered = []\<rparr>))
     else if cancelledAfterProcess env
     then (Inr [], updateProgress 0 (afterProcessing env audioData))
     else if cancelledAfterNormalize env
     then (Inr [], updateProgress 0 (updateProgress 0.8 (afterProcessing env audioData)))
     else (Inr (normalizeWaveform (fst (processWaveform (processing env) audioData 100 2)) 1 0),
           updateProgress 1 (updateProgress 0.8 (afterProcessing env audioData))))"
  using assms by (simp add: extract_run_def afterProcessing_def Let_def)

text \<open>
  C5. For every run of \<open>extract\<close>: if the flag is read as set at one of the four checkpoints
  the run reaches (before the decoding; after it, after the processing or after the
  normalisation when the decoder returned), the stored progress ends as 0, the last value
  given to the callback is 0 and the future holds the empty envelope. The future holds an
  exception only when the decoder threw it: no cancellation raises one.
\<close>

theorem extract_cancelled:
  "(cancelledBeforeDecode env
     \<or> (\<exists>audioData. decode config = Inr audioData)
        \<and> (cancelledAfterDecode env \<or> cancelledAfterProcess env \<or> cancelledAfterNormalize env)
    \<longrightarrow> fst (extract_run decode env config) = Inr []
        \<and> progress_field (snd (extract_run decode env config)) = 0
        \<and> last (delivered (snd (extract_run decode env config))) = 0)
   \<and> (\<forall>e. fst (extract_run decode env config) = Inl e
         \<longrightarrow> decode config = Inl e \<and> \<not> cancelledBeforeDecode env)"
proof (cases "cancelledBeforeDecode env")
  case True
  then show ?thesis by (simp add: extract_run_before updateProgress_0)
next
  case nb: False
  show ?thesis
  proof (cases "decode config")
    case (Inl e)
    then show ?thesis using nb by (simp add: extract_run_failed[where decode=decode and config=config, OF nb Inl])
  next
    case (Inr audioData)
    show ?thesis
      using nb Inr by (simp add: extract_run_decoded[where decode=decode and config=config, OF nb Inr] updateProgress_0)
  qed
qed

theorem extract_cancelled_witness:
  "cancelledAfterDecode ((run_env env_single)\<lparr>cancelledAfterDecode := True\<rparr>)
   \<and> decode_tone ''a.wav'' = Inr (tone 400)
   \<and> fst (extract_run decode_tone ((run_env env_single)\<lparr>cancelledAfterDecode := True\<rparr>) ''a.wav'')
       = Inr []
   \<and> progress_field
         (snd (extract_run decode_tone ((run_env env_single)\<lparr>cancelledAfterDecode := True\<rparr>) ''a.wav''))
       = 0
   \<and> delivered
         (snd (extract_run decode_tone ((run_env env_single)\<lparr>cancelledAfterDecode := True\<rparr>) ''a.wav''))
       = [1/10, 0]"
proof -
  let ?env = "(run_env env_single)\<lparr>cancelledAfterDecode := True\<rparr>"
  have c: "cancelledAfterDecode ?env" by simp
  have d: "decode_tone ''a.wav'' = Inr (tone 400)" by (simp add: decode_tone_def)
  have hyp: "cancelledBeforeDecode ?env
     \<or> (\<exists>audioData. decode_tone ''a.wav'' = Inr audioData)
        \<and> (cancelledAfterDecode ?env \<or> cancelledAfterProcess ?env \<or> cancelledAfterNormalize ?env)"
    using c d by blast
  from extract_cancelled[of ?env decode_tone "''a.wav''", THEN conjunct1, rule_format, OF hyp]
  have r: "fst (extract_run decode_tone ?env ''a.wav'') = Inr []"
    and p: "progress_field (snd (extract_run decode_tone ?env ''a.wav'')) = 0"
    by simp_all
  have nb: "\<not> cancelledBeforeDecode ?env" by (simp add: run_env_def)
  have l: "delivered (snd (extract_run decode_tone ?env ''a.wav'')) = [1/10, 0]"
    by (simp add: extract_run_decoded[where decode=decode_tone and config="''a.wav''", OF nb d]
        updateProgress_def Let_def)
  from c d r p l show ?thesis by (intro conjI)
qed

text \<open>
  C9. The config string reaches the result of \<open>extract\<close> through the decoder only: two
  configs that decode to the same outcome give the same result and the same state
  (progress values included) in the same environment; and an uncancelled run on a decoded
  buffer returns \<open>normalizeWaveform (processWaveform pcm 100 2) 1.0 0.0\<close>, the hard-coded
  parameters.
\<close>

theorem extract_config_through_decoder:
  "(decode c1 = decode c2 \<longrightarrow> extract_run decode env c1 = extract_run decode env c2)
   \<and> (\<forall>pcm. decode c1 = Inr pcm \<and> run_not_cancelled env \<longrightarrow>
          fst (extract_run decode env c1)
            = Inr (normalizeWaveform (fst (processWaveform (processing env) pcm 100 2)) 1 0))"
proof (intro conjI allI impI)
  assume same: "decode c1 = decode c2"
  show "extract_run decode env c1 = extract_run decode env c2"
    unfolding extract_run_def same by (rule refl)
next
  fix pcm assume h: "decode c1 = Inr pcm \<and> run_not_cancelled env"
  then have nb: "\<not> cancelledBeforeDecode env" and d: "decode c1 = Inr pcm"
    by (simp_all add: run_not_cancelled_def)
  show "fst (extract_run decode env c1)
            = Inr (normalizeWaveform (fst (processWaveform (processing env) pcm 100 2)) 1 0)"
    using h by (simp add: extract_run_decoded[where decode=decode and config=c1, OF nb d]
        run_not_cancelled_def)
qed

theorem extract_config_through_decoder_witness:
  "decode_tone ''a.wav'' = decode_tone ''b.mp3''
   \<and> extract_run decode_tone (run_env env_single) ''a.wav''
       = extract_run decode_tone (run_env env_single) ''b.mp3''
   \<and> run_not_cancelled (run_env env_single)
   \<and> fst (extract_run decode_tone (run_env env_single) ''a.wav'') = Inr [[1, 1], [1, 1]]"
proof -
  have d: "decode_tone ''a.wav'' = decode_tone ''b.mp3''" by (simp add: decode_tone_def)
  note inst = extract_config_through_decoder[of decode_tone "''a.wav''" "''b.mp3''" "run_env env_single"]
  from inst d have e: "extract_run decode_tone (run_env env_single) ''a.wav''
       = extract_run decode_tone (run_env env_single) ''b.mp3''" by blast
  have nc: "run_not_cancelled (run_env env_single)"
    by (simp add: run_not_cancelled_def run_env_def not_cancelled_def env_single_def)
  have v: "fst (extract_run decode_tone (run_env env_single) ''a.wav'') = Inr [[1, 1], [1, 1]]"
    by code_simp
  from d e nc v show ?thesis by (intro conjI)
qed

text \<open>
  C6 as stated says that within one uncancelled, non-failing run the values given to the
  progress callback are non-decreasing. With two cores they need not be: a worker takes
  its count from \<^verbatim>\<open>fetch_add\<close> and reports it in a later step, so another worker can
  report a larger count first. Here the workers count 1 and 2, then report 2 and 1: the
  callback receives 0.8 before 0.65. On one core the same run delivers a non-decreasing
  sequence.
\<close>

theorem extract_progress_reordered:
  "run_not_cancelled (run_env env_dual)
   \<and> decode_tone ''a.wav'' = Inr (tone 400)
   \<and> delivered (snd (extract_run decode_tone (run_env env_dual) ''a.wav''))
       = [1/10, 1/2, 4/5, 13/20, 4/5, 4/5, 1]
   \<and> \<not> sorted (delivered (snd (extract_run decode_tone (run_env env_dual) ''a.wav'')))
   \<and> delivered (snd (extract_run decode_tone (run_env env_single) ''a.wav''))
       = [1/10, 1/2, 13/20, 4/5, 4/5, 4/5, 1]"
proof -
  have nc: "run_not_cancelled (run_env env_dual)"
    by (simp add: run_not_cancelled_def run_env_def not_cancelled_def env_dual_def)
  have d: "decode_tone ''a.wav'' = Inr (tone 400)" by (simp add: decode_tone_def)
  have v: "delivered (snd (extract_run decode_tone (run_env env_dual) ''a.wav''))
       = [1/10, 1/2, 4/5, 13/20, 4/5, 4/5, 1]" by code_simp
  have ns: "\<not> sorted (delivered (snd (extract_run decode_tone (run_env env_dual) ''a.wav'')))"
    by (simp only: v) simp
  have s: "delivered (snd (extract_run decode_tone (run_env env_single) ''a.wav''))
       = [1/10, 1/2, 13/20, 4/5, 4/5, 4/5, 1]" by code_simp
  from nc d v ns s show ?thesis by (intro conjI)
qed

section \<open>Facts and claims about the factory\<close>

subsection \<open>createPlayer\<close>

lemma createPlayer_duplicate:
  "map_of (players f) key \<noteq> None \<Longrightarrow> createPlayer pf key f = (Inl (PlayerExists key), f)"
  by (simp add: createPlayer_def)

lemma createPlayer_full:
  "map_of (players f) key = None \<Longrightarrow> MAX_PLAYERS \<le> length (players f) \<Longrightarrow>
   createPlayer pf key f = (Inl MaxPlayersReached, f)"
  by (simp add: createPlayer_def)

lemma createPlayer_failure_unchanged:
  "fst (createPlayer pf key f) = Inl e \<Longrightarrow> snd (createPlayer pf key f) = f"
  by (auto simp: createPlayer_def split: if_splits sum.splits option.splits)

lemma length_update_fresh:
  "map_of al k = None \<Longrightarrow> length (AList.update k v al) = Suc (length al)"
  by (induction al) (auto split: if_splits)

lemma length_delete_le': "length (AList.delete k al) \<le> length al"
  by (rule length_delete_le)

lemma createPlayer_success:
  assumes "fst (createPlayer pf key f) = Inr p"
  shows "map_of (players f) key = None" and "length (players f) < MAX_PLAYERS"
    and "snd (createPlayer pf key f) = f\<lparr>players := AList.update key p (players f)\<rparr>"
  using assms
  by (auto simp: createPlayer_def split: if_splits sum.splits option.splits)

lemma players_ok_createPlayer:
  assumes "players_ok f"
  shows "players_ok (snd (createPlayer pf key f))"
proof (cases "fst (createPlayer pf key f)")
  case (Inl e)
  then show ?thesis using assms by (simp add: createPlayer_failure_unchanged)
next
  case (Inr p)
  note s = createPlayer_success[OF Inr]
  have "length (AList.update key p (players f)) = Suc (length (players f))"
    by (rule length_update_fresh[OF s(1)])
  then show ?thesis
    using assms s(2) by (simp add: s(3) players_ok_def distinct_update)
qed

lemma players_ok_removePlayer: "players_ok f \<Longrightarrow> players_ok (snd (removePlayer key f))"
proof -
  assume ok: "players_ok f"
  have "length (AList.delete key (players f)) \<le> length (players f)" by (rule length_delete_le)
  with ok show ?thesis
    by (auto simp: removePlayer_def players_ok_def distinct_delete)
qed

lemma players_ok_apply_op: "players_ok f \<Longrightarrow> players_ok (apply_op pf op f)"
proof (cases op)
  case (CreatePlayer key)
  assume "players_ok f"
  then show ?thesis using CreatePlayer by (simp add: players_ok_createPlayer)
next
  case (RemovePlayer key)
  assume "players_ok f"
  then show ?thesis using RemovePlayer by (simp add: players_ok_removePlayer)
next
  case StopAllPlayers
  then show ?thesis by (simp add: stopAllPlayers_def players_ok_def split: prod.split)
next
  case (CreateExtractor key)
  assume "players_ok f"
  then show ?thesis using CreateExtractor
    by (auto simp: createExtractor_def players_ok_def split: sum.splits option.splits)
next
  case (RemoveExtractor key)
  assume "players_ok f"
  then show ?thesis using RemoveExtractor by (auto simp: removeExtractor_def players_ok_def)
next
  case StopAllExtractors
  assume "players_ok f"
  then show ?thesis using StopAllExtractors
    by (simp add: stopAllExtractors_def stopAllExtractorsWith_def players_ok_def)
qed

lemma players_ok_run_ops: "players_ok f \<Longrightarrow> players_ok (run_ops pf ops f)"
  unfolding run_ops_def
proof (induction ops arbitrary: f)
  case Nil
  then show ?case by simp
next
  case (Cons op ops)
  from Cons.IH[OF players_ok_apply_op[OF Cons.prems]] show ?case by simp
qed

lemma players_ok_new: "players_ok new_factory"
  by (simp add: players_ok_def new_factory_def)

text \<open>
  C7, as the code has it. \<open>createPlayer key\<close> fails with the duplicate-key error whenever
  \<open>key\<close> is registered, whatever the number of players; it fails with the capacity error
  whenever 30 (or more) players are registered and \<open>key\<close> is not one of them; whenever it
  fails the factory is left as it was; and after any sequence of operations on a new
  factory the player map holds at most 30 entries, one per key.
\<close>

theorem createPlayer_limits:
  "(map_of (players f) key \<noteq> None \<longrightarrow> createPlayer pf key f = (Inl (PlayerExists key), f))
   \<and> (map_of (players f) key = None \<and> 30 \<le> length (players f)
        \<longrightarrow> createPlayer pf key f = (Inl MaxPlayersReached, f))
   \<and> (\<forall>e. fst (createPlayer pf key f) = Inl e \<longrightarrow> snd (createPlayer pf key f) = f)
   \<and> length (players (run_ops pf ops new_factory)) \<le> 30
   \<and> distinct (map fst (players (run_ops pf ops new_factory)))"
proof (intro conjI allI impI)
  assume "map_of (players f) key \<noteq> None"
  then show "createPlayer pf key f = (Inl (PlayerExists key), f)" by (rule createPlayer_duplicate)
next
  assume "map_of (players f) key = None \<and> 30 \<le> length (players f)"
  then show "createPlayer pf key f = (Inl MaxPlayersReached, f)"
    by (simp add: createPlayer_full MAX_PLAYERS_def)
next
  fix e assume "fst (createPlayer pf key f) = Inl e"
  then show "snd (createPlayer pf key f) = f" by (rule createPlayer_failure_unchanged)
next
  have ok: "players_ok (run_ops pf ops new_factory)"
    by (rule players_ok_run_ops[OF players_ok_new])
  then show "length (players (run_ops pf ops new_factory)) \<le> 30"
    by (simp add: players_ok_def MAX_PLAYERS_def)
  from ok show "distinct (map fst (players (run_ops pf ops new_factory)))"
    by (simp add: players_ok_def)
qed

lemma full_factory_players:
  "players full_factory = map (\<lambda>key. (key, idle_player)) thirty_keys"
  by (simp add: full_factory_def run_ops_def thirty_keys_def createPlayer_def new_factory_def
      test_platform_def MAX_PLAYERS_def)

text \<open>
  C7 as stated says that \<open>createPlayer\<close> fails with the capacity error whenever 30 players
  are registered. The duplicate test comes first: with 30 players registered, creating
  one of their keys again fails with the duplicate-key error.
\<close>

theorem createPlayer_duplicate_at_capacity:
  "getPlayerCount full_factory = 30
   \<and> hasPlayer ''p0'' full_factory
   \<and> fst (createPlayer test_platform ''p0'' full_factory) = Inl (PlayerExists ''p0'')
   \<and> fst (createPlayer test_platform ''p0'' full_factory) \<noteq> Inl MaxPlayersReached"
proof -
  have n: "getPlayerCount full_factory = 30"
    by (simp add: getPlayerCount_def full_factory_players thirty_keys_def)
  have h: "hasPlayer ''p0'' full_factory"
    by (simp add: hasPlayer_def full_factory_players thirty_keys_def)
  then have "map_of (players full_factory) ''p0'' \<noteq> None" by (simp add: hasPlayer_def)
  then have r: "fst (createPlayer test_platform ''p0'' full_factory) = Inl (PlayerExists ''p0'')"
    by (simp add: createPlayer_duplicate)
  then have "fst (createPlayer test_platform ''p0'' full_factory) \<noteq> Inl MaxPlayersReached"
    by simp
  with n h r show ?thesis by (intro conjI)
qed

theorem createPlayer_limits_witness:
  "map_of (players full_factory) ''p30'' = None
   \<and> 30 \<le> length (players full_factory)
   \<and> createPlayer test_platform ''p30'' full_factory = (Inl MaxPlayersReached, full_factory)
   \<and> map_of (players full_factory) ''p7'' \<noteq> None
   \<and> createPlayer test_platform ''p7'' full_factory = (Inl (PlayerExists ''p7''), full_factory)
   \<and> fst (createPlayer test_platform ''p30'' (snd (removePlayer ''p0'' full_factory)))
       = Inr idle_player
   \<and> length (players (run_ops test_platform (map CreatePlayer (thirty_keys @ [''p30''])) new_factory))
       \<le> 30"
proof -
  note inst = createPlayer_limits[of full_factory _ test_platform
      "map CreatePlayer (thirty_keys @ [''p30''])"]
  have a: "map_of (players full_factory) ''p30'' = None"
    by (simp add: full_factory_players thirty_keys_def)
  have b: "30 \<le> length (players full_factory)"
    by (simp add: full_factory_players thirty_keys_def)
  from inst[of "''p30''"] a b
  have c: "createPlayer test_platform ''p30'' full_factory = (Inl MaxPlayersReached, full_factory)"
    by blast
  have d: "map_of (players full_factory) ''p7'' \<noteq> None"
    by (simp add: full_factory_players thirty_keys_def)
  from inst[of "''p7''"] d
  have e: "createPlayer test_platform ''p7'' full_factory = (Inl (PlayerExists ''p7''), full_factory)"
    by blast
  have g: "fst (createPlayer test_platform ''p30'' (snd (removePlayer ''p0'' full_factory)))
       = Inr idle_player"
    by (simp add: removePlayer_def createPlayer_def full_factory_players thirty_keys_def
        test_platform_def MAX_PLAYERS_def)
  from inst[of "''p30''"]
  have h: "length (players (run_ops test_platform (map CreatePlayer (thirty_keys @ [''p30''])) new_factory))
       \<le> 30" by blast
  from a b c d e g h show ?thesis by (intro conjI)
qed

subsection \<open>stopAllPlayers and stopAllExtractors\<close>

lemma stopOne_step:
  "stopOne entry (b, called) =
     (b \<and> entry_clean entry, called @ (if reports_playing entry then [fst entry] else []))"
  by (cases entry)
    (auto simp: stopOne_def entry_clean_def reports_playing_def stop_clean_def
      split: sum.splits bool.splits stop_result.splits)

lemma fold_stopOne:
  "fold stopOne ps (b, called) =
     (b \<and> list_all entry_clean ps, called @ map fst (filter reports_playing ps))"
proof (induction ps arbitrary: b called)
  case Nil
  show ?case by simp
next
  case (Cons entry ps)
  show ?case by (simp add: stopOne_step Cons.IH)
qed

lemma stopAllPlayers_eq:
  "stopAllPlayers f =
     (list_all entry_clean (players f), map fst (filter reports_playing (players f)),
      f\<lparr>players := []\<rparr>)"
  by (simp add: stopAllPlayers_def fold_stopOne)

text \<open>
  C8, as the code has it. \<open>stopAllPlayers\<close> calls \<open>stop\<close> on exactly the registered players
  whose \<open>isPlaying\<close> returns true; it resolves to true if and only if, for every registered
  player, \<open>isPlaying\<close> returned without throwing and, where it returned true, the stop
  completed cleanly (a null promise, or a promise resolved to true); the player map is
  empty afterwards whatever the stops did, so \<open>getPlayerCount\<close> is 0, and the extractor map
  is untouched.
\<close>

theorem stopAllPlayers_result:
  "fst (snd (stopAllPlayers f)) = map fst (filter (\<lambda>(key, p). isPlaying p = Inr True) (players f))
   \<and> fst (stopAllPlayers f)
       = list_all (\<lambda>(key, p). (\<exists>b. isPlaying p = Inr b)
                     \<and> (isPlaying p = Inr True \<longrightarrow> stop_clean (stop p))) (players f)
   \<and> players (snd (snd (stopAllPlayers f))) = []
   \<and> getPlayerCount (snd (snd (stopAllPlayers f))) = 0
   \<and> extractors (snd (snd (stopAllPlayers f))) = extractors f"
proof -
  have rp: "reports_playing = (\<lambda>(key, p). isPlaying p = Inr True)"
    by (auto simp: reports_playing_def fun_eq_iff)
  have ec: "entry_clean = (\<lambda>(key, p). (\<exists>b. isPlaying p = Inr b)
                     \<and> (isPlaying p = Inr True \<longrightarrow> stop_clean (stop p)))"
    by (auto simp: entry_clean_def fun_eq_iff split: sum.splits)
  show ?thesis
    by (simp add: stopAllPlayers_eq getPlayerCount_def rp[symmetric] ec[symmetric])
qed

text \<open>
  C8 as stated says that the result is true if and only if every stop of a playing player
  completed cleanly. The \<^verbatim>\<open>try\<close> block also covers \<^verbatim>\<open>isPlaying()\<close>: when that call throws, the
  result is false although no stop was called and none failed.
\<close>

theorem stopAllPlayers_query_throws:
  "fst (stopAllPlayers broken_factory) = False
   \<and> fst (snd (stopAllPlayers broken_factory)) = []
   \<and> filter (\<lambda>(key, p). isPlaying p = Inr True) (players broken_factory) = []
   \<and> list_all (\<lambda>(key, p). isPlaying p \<noteq> Inr True \<or> stop_clean (stop p)) (players broken_factory)"
  by (simp add: stopAllPlayers_eq broken_factory_def broken_player_def idle_player_def
      entry_clean_def reports_playing_def stop_clean_def)

theorem stopAllPlayers_result_witness:
  "stopAllPlayers mixed_factory
     = (False, [''a'', ''b''], \<lparr>players = [], extractors = extractors mixed_factory\<rparr>)
   \<and> \<not> stop_clean (stop stuck_player)
   \<and> getPlayerCount (snd (snd (stopAllPlayers mixed_factory))) = 0"
proof -
  note inst = stopAllPlayers_result[of mixed_factory]
  have v: "stopAllPlayers mixed_factory
     = (False, [''a'', ''b''], \<lparr>players = [], extractors = extractors mixed_factory\<rparr>)"
    by (simp add: stopAllPlayers_eq mixed_factory_def playing_player_def stuck_player_def
        idle_player_def entry_clean_def reports_playing_def stop_clean_def)
  have s: "\<not> stop_clean (stop stuck_player)" by (simp add: stuck_player_def stop_clean_def)
  from inst have c: "getPlayerCount (snd (snd (stopAllPlayers mixed_factory))) = 0" by blast
  from v s c show ?thesis by (intro conjI)
qed

text \<open>
  C10. \<open>stopAllExtractors\<close> always resolves to true, also when the call that cancels an
  extractor throws (the loop is stated for any outcome of that call); afterwards the
  extractor map is empty and \<open>getExtractorCount\<close> is 0. With the \<open>cancel\<close> of the source every
  handle that was registered has its flag set, and the player map is untouched.
\<close>

theorem stopAllExtractors_result:
  "fst (stopAllExtractorsWith tryCancel f) = True
   \<and> extractors (snd (snd (stopAllExtractorsWith tryCancel f))) = []
   \<and> getExtractorCount (snd (snd (stopAllExtractorsWith tryCancel f))) = 0
   \<and> fst (stopAllExtractors f) = True
   \<and> getExtractorCount (snd (snd (stopAllExtractors f))) = 0
   \<and> map fst (fst (snd (stopAllExtractors f))) = map fst (extractors f)
   \<and> list_all (\<lambda>(key, x). cancelled_flag x) (fst (snd (stopAllExtractors f)))
   \<and> players (snd (snd (stopAllExtractors f))) = players f"
  by (auto simp: stopAllExtractors_def stopAllExtractorsWith_def getExtractorCount_def
      cancelOne_def cancel_def list_all_iff split: prod.splits)

theorem stopAllExtractors_result_witness:
  "stopAllExtractors mixed_factory
     = (True, [(''x'', \<lparr>cancelled_flag = True\<rparr>), (''y'', \<lparr>cancelled_flag = True\<rparr>)],
        \<lparr>players = players mixed_factory, extractors = []\<rparr>)
   \<and> fst (stopAllExtractorsWith (\<lambda>x. Inl ''cancel failed'') mixed_factory) = True
   \<and> getExtractorCount (snd (snd (stopAllExtractorsWith (\<lambda>x. Inl ''cancel failed'') mixed_factory))) = 0"
proof -
  note inst = stopAllExtractors_result[of "\<lambda>x. Inl ''cancel failed''" mixed_factory]
  have v: "stopAllExtractors mixed_factory
     = (True, [(''x'', \<lparr>cancelled_flag = True\<rparr>), (''y'', \<lparr>cancelled_flag = True\<rparr>)],
        \<lparr>players = players mixed_factory, extractors = []\<rparr>)"
    by (simp add: stopAllExtractors_def stopAllExtractorsWith_def mixed_factory_def
        cancelOne_def cancel_def)
  from inst have a: "fst (stopAllExtractorsWith (\<lambda>x. Inl ''cancel failed'') mixed_factory) = True"
    and b: "getExtractorCount (snd (snd (stopAllExtractorsWith (\<lambda>x. Inl ''cancel failed'') mixed_factory))) = 0"
    by blast+
  from v a b show ?thesis by (intro conjI)
qed

section \<open>Facts about the progress reports\<close>

lemma counted_update:
  assumes "t < length ws"
  shows "counted ppt (ws[t := w']) + (covered (ws ! t) - t * ppt)
           = counted ppt ws + (covered w' - t * ppt)"
proof -
  let ?g = "\<lambda>ws u. covered (ws ! u) - u * ppt"
  have fin: "finite {..<length ws}" and mem: "t \<in> {..<length ws}" using assms by simp_all
  have a: "(\<Sum>u<length ws. ?g ws u) = ?g ws t + (\<Sum>u\<in>{..<length ws} - {t}. ?g ws u)"
    by (rule sum.remove[OF fin mem])
  have b: "(\<Sum>u<length ws. ?g (ws[t := w']) u)
             = ?g (ws[t := w']) t + (\<Sum>u\<in>{..<length ws} - {t}. ?g (ws[t := w']) u)"
    by (rule sum.remove[OF fin mem])
  have c: "(\<Sum>u\<in>{..<length ws} - {t}. ?g (ws[t := w']) u) = (\<Sum>u\<in>{..<length ws} - {t}. ?g ws u)"
    by (rule sum.cong) simp_all
  have d: "?g (ws[t := w']) t = covered w' - t * ppt" using assms by simp
  show ?thesis unfolding counted_def using a b c d by simp
qed

lemma covered_returned: "covered (w\<lparr>w_returned := b\<rparr>) = covered w"
  by (simp add: covered_def split: option.split)

lemma count_inv_worker_update:
  assumes ci: "count_inv ppt B pl" and t: "t < length (p_workers pl)"
    and cov: "covered w' - t * ppt = (covered (p_workers pl ! t) - t * ppt) + d"
    and bound: "covered w' - t * ppt \<le> w_endPixel w' - t * ppt"
    and pend: "\<forall>k. w_processed w' = Some k \<longrightarrow> 1 \<le> k \<and> k \<le> pixelsProcessed pl + d"
    and rep: "\<forall>r \<in> set rep'. \<exists>k. 1 \<le> k \<and> k \<le> pixelsProcessed pl + d \<and> r = progressOf k B"
  shows "count_inv ppt B
           (pl\<lparr>p_result := res', pixelsProcessed := pixelsProcessed pl + d, p_reported := rep',
               p_workers := (p_workers pl)[t := w']\<rparr>)"
proof -
  let ?ws = "p_workers pl"
  from ci[unfolded count_inv_def] have pp: "pixelsProcessed pl = counted ppt ?ws"
    and each: "\<forall>u<length ?ws. covered (?ws ! u) - u * ppt \<le> w_endPixel (?ws ! u) - u * ppt
            \<and> (\<forall>k. w_processed (?ws ! u) = Some k \<longrightarrow> 1 \<le> k \<and> k \<le> pixelsProcessed pl)"
    by (rule conjunct1, rule conjunct2[THEN conjunct1])
  from counted_update[OF t, of ppt w'] cov
  have cnt: "counted ppt (?ws[t := w']) = counted ppt ?ws + d" by simp
  have each': "\<forall>u<length ?ws. covered (?ws[t := w'] ! u) - u * ppt \<le> w_endPixel (?ws[t := w'] ! u) - u * ppt
            \<and> (\<forall>k. w_processed (?ws[t := w'] ! u) = Some k \<longrightarrow> 1 \<le> k \<and> k \<le> pixelsProcessed pl + d)"
  proof (intro allI impI)
    fix u assume u: "u < length ?ws"
    show "covered (?ws[t := w'] ! u) - u * ppt \<le> w_endPixel (?ws[t := w'] ! u) - u * ppt
            \<and> (\<forall>k. w_processed (?ws[t := w'] ! u) = Some k \<longrightarrow> 1 \<le> k \<and> k \<le> pixelsProcessed pl + d)"
    proof (cases "u = t")
      case True
      then show ?thesis using t bound pend by simp
    next
      case False
      then show ?thesis using each u by (auto simp: nth_list_update)
    qed
  qed
  show ?thesis
    unfolding count_inv_def using pp cnt each' rep by simp
qed

lemma count_inv_step:
  assumes inv: "pool_inv isa a S C B ppt n pl" and ci: "count_inv ppt B pl"
  shows "count_inv ppt B (workerStep env a S C B t pl)"
proof (cases "length (p_workers pl) \<le> t \<or> w_returned (p_workers pl ! t)")
  case True
  then show ?thesis using ci by (simp only: workerStep_idle)
next
  case False
  let ?ws = "p_workers pl"
  let ?w = "?ws ! t"
  from inv have len: "length ?ws = n"
    and all: "\<forall>u<n. worker_ok ppt B u (?ws ! u)" by (simp_all add: pool_inv_def)
  from False len have t: "t < length ?ws" and nr: "\<not> w_returned ?w" by simp_all
  from all t len have ok: "worker_ok ppt B t ?w" by simp
  from ci[unfolded count_inv_def]
  have each: "\<forall>u<length ?ws. covered (?ws ! u) - u * ppt \<le> w_endPixel (?ws ! u) - u * ppt
            \<and> (\<forall>k. w_processed (?ws ! u) = Some k \<longrightarrow> 1 \<le> k \<and> k \<le> pixelsProcessed pl)"
    and rep: "\<forall>r \<in> set (p_reported pl). \<exists>k. 1 \<le> k \<and> k \<le> pixelsProcessed pl \<and> r = progressOf k B"
    by (rule conjunct2[THEN conjunct1], rule conjunct2[THEN conjunct2])
  from each[rule_format, OF t]
  have bound: "covered ?w - t * ppt \<le> w_endPixel ?w - t * ppt"
    and pend: "\<forall>k. w_processed ?w = Some k \<longrightarrow> 1 \<le> k \<and> k \<le> pixelsProcessed pl"
    by (rule conjunct1, rule conjunct2)
  show ?thesis
  proof (cases "w_processed ?w")
    case (Some k)
    let ?w' = "?w\<lparr>w_processed := None, w_pixel := w_pixel ?w + 1\<rparr>"
    let ?rep' = "if reportDueMT B k then p_reported pl @ [progressOf k B] else p_reported pl"
    have cov: "covered ?w' - t * ppt = (covered ?w - t * ppt) + 0"
      using Some by (simp add: covered_def)
    have b': "covered ?w' - t * ppt \<le> w_endPixel ?w' - t * ppt"
      using bound Some by (simp add: covered_def)
    have p': "\<forall>k. w_processed ?w' = Some k \<longrightarrow> 1 \<le> k \<and> k \<le> pixelsProcessed pl + 0" by simp
    have r': "\<forall>r \<in> set ?rep'. \<exists>k. 1 \<le> k \<and> k \<le> pixelsProcessed pl + 0 \<and> r = progressOf k B"
      using rep pend Some by auto
    from count_inv_worker_update[OF ci t cov b' p' r', of "p_result pl"]
    show ?thesis by (simp add: workerStep_report[OF t nr Some])
  next
    case None
    show ?thesis
    proof (cases "w_pixel ?w < w_endPixel ?w
        \<and> \<not> (w_pixel ?w mod 100 = 0 \<and> cancelAtPixel env (w_pixel ?w))")
      case False
      then have c: "\<not> w_pixel ?w < w_endPixel ?w
         \<or> (w_pixel ?w mod 100 = 0 \<and> cancelAtPixel env (w_pixel ?w))" by auto
      let ?w' = "?w\<lparr>w_returned := True\<rparr>"
      have cov: "covered ?w' - t * ppt = (covered ?w - t * ppt) + 0"
        by (simp add: covered_returned)
      have b': "covered ?w' - t * ppt \<le> w_endPixel ?w' - t * ppt"
        using bound by (simp add: covered_returned)
      have p': "\<forall>k. w_processed ?w' = Some k \<longrightarrow> 1 \<le> k \<and> k \<le> pixelsProcessed pl + 0"
        using None by simp
      have r': "\<forall>r \<in> set (p_reported pl). \<exists>k. 1 \<le> k \<and> k \<le> pixelsProcessed pl + 0 \<and> r = progressOf k B"
        using rep by simp
      from count_inv_worker_update[OF ci t cov b' p' r', of "p_result pl"]
      show ?thesis by (simp add: workerStep_return[OF t nr None c])
    next
      case True
      then have lt: "w_pixel ?w < w_endPixel ?w"
        and nc: "\<not> (w_pixel ?w mod 100 = 0 \<and> cancelAtPixel env (w_pixel ?w))" by simp_all
      let ?w' = "?w\<lparr>w_processed := Some (pixelsProcessed pl + 1)\<rparr>"
      have start: "t * ppt \<le> w_pixel ?w" using ok by (simp add: worker_ok_def)
      have cov: "covered ?w' - t * ppt = (covered ?w - t * ppt) + 1"
        using None start by (simp add: covered_def)
      have b': "covered ?w' - t * ppt \<le> w_endPixel ?w' - t * ppt"
        using lt by (simp add: covered_def)
      have p': "\<forall>k. w_processed ?w' = Some k \<longrightarrow> 1 \<le> k \<and> k \<le> pixelsProcessed pl + 1" by simp
      have r': "\<forall>r \<in> set (p_reported pl). \<exists>k. 1 \<le> k \<and> k \<le> pixelsProcessed pl + 1 \<and> r = progressOf k B"
        using rep by (meson le_SucI Suc_eq_plus1 trans_le_add1)
      from count_inv_worker_update[OF ci t cov b' p' r',
          of "processPixelMT (simd_isa env) a S C (w_pixel ?w) (p_result pl)"]
      show ?thesis by (simp add: workerStep_process[OF t nr None lt nc])
    qed
  qed
qed

lemma partition_sum:
  fixes ppt B :: nat
  shows "(\<Sum>t<n. min (t * ppt + ppt) B - t * ppt) \<le> min (n * ppt) B"
proof (induction n)
  case 0
  show ?case by simp
next
  case (Suc n)
  have "(\<Sum>t<Suc n. min (t * ppt + ppt) B - t * ppt)
          \<le> min (n * ppt) B + (min (n * ppt + ppt) B - n * ppt)"
    using Suc by simp
  also have "\<dots> \<le> min (Suc n * ppt) B"
    by (cases "n * ppt \<le> B") (simp_all add: min_def)
  finally show ?case .
qed

lemma counted_le:
  assumes inv: "pool_inv isa a S C B ppt n pl" and ci: "count_inv ppt B pl"
  shows "pixelsProcessed pl \<le> B"
proof -
  let ?ws = "p_workers pl"
  from inv have len: "length ?ws = n" and ok: "\<forall>u<n. worker_ok ppt B u (?ws ! u)"
    by (simp_all add: pool_inv_def)
  from ci[unfolded count_inv_def] have pp: "pixelsProcessed pl = counted ppt ?ws"
    and each: "\<forall>u<length ?ws. covered (?ws ! u) - u * ppt \<le> w_endPixel (?ws ! u) - u * ppt
            \<and> (\<forall>k. w_processed (?ws ! u) = Some k \<longrightarrow> 1 \<le> k \<and> k \<le> pixelsProcessed pl)"
    by (rule conjunct1, rule conjunct2[THEN conjunct1])
  have "counted ppt ?ws \<le> (\<Sum>t<n. min (t * ppt + ppt) B - t * ppt)"
    unfolding counted_def len
  proof (rule sum_mono)
    fix t assume "t \<in> {..<n}"
    then have t: "t < n" by simp
    with each len have "covered (?ws ! t) - t * ppt \<le> w_endPixel (?ws ! t) - t * ppt" by simp
    moreover from ok t have "w_endPixel (?ws ! t) = min (t * ppt + ppt) B"
      by (simp add: worker_ok_def)
    ultimately show "covered (?ws ! t) - t * ppt \<le> min (t * ppt + ppt) B - t * ppt" by simp
  qed
  also have "\<dots> \<le> min (n * ppt) B" by (rule partition_sum)
  also have "\<dots> \<le> B" by simp
  finally show ?thesis by (simp only: pp)
qed

lemma started_count_inv:
  "count_inv ppt B \<lparr>p_result = r, pixelsProcessed = 0, p_reported = [],
                    p_workers = map (startWorker ppt B) [0..<n]\<rparr>"
  by (simp add: count_inv_def counted_def covered_def startWorker_def Let_def)

text \<open>Every value a worker reports is \<open>k / numPixels\<close> for a count \<open>k\<close> from 1 to \<open>numPixels\<close>.\<close>

lemma runWorkers_reports:
  assumes S: "0 < S" and B: "B = length a div S div C"
    and r: "r \<in> set (p_reported (runWorkers env a S C B n (replicate C (replicate B 0))))"
  shows "\<exists>k. 1 \<le> k \<and> k \<le> B \<and> r = progressOf k B"
proof -
  let ?ppt = "(B + n - 1) div n"
  let ?step = "workerStep env a S C B"
  let ?start = "\<lparr>p_result = replicate C (replicate B 0), pixelsProcessed = 0, p_reported = [],
                 p_workers = map (startWorker ?ppt B) [0..<n]\<rparr>"
  let ?sched = "worker_schedule env @ joinSteps n ?ppt"
  let ?pl = "fold ?step ?sched ?start"
  have run: "runWorkers env a S C B n (replicate C (replicate B 0)) = ?pl"
    unfolding runWorkers_def Let_def by (rule refl)
  have whole: "B * (S * C) \<le> length a" using B by (simp only: div_div_whole)
  define I where "I = (\<lambda>pl::pool. pool_inv (simd_isa env) a S C B ?ppt n pl
                        \<and> count_inv ?ppt B pl)"
  have I_step: "\<And>t pl. I pl \<Longrightarrow> I (?step t pl)"
    unfolding I_def using pool_inv_step count_inv_step by blast
  have "I ?start"
    unfolding I_def
    using started_pool_inv(1)[OF shaped_replicate[of C B], where isa="simd_isa env"
          and a=a and S=S and ppt="?ppt" and n=n]
      started_count_inv[of ?ppt B "replicate C (replicate B 0)" n]
    by simp
  then have "I ?pl"
    by (rule fold_workerStep_preserves[where P=I and env=env and a=a and S=S and C=C and B=B])
       (rule I_step)
  then have inv: "pool_inv (simd_isa env) a S C B ?ppt n ?pl" and ci: "count_inv ?ppt B ?pl"
    by (simp_all add: I_def)
  from ci[unfolded count_inv_def]
  have "\<forall>r \<in> set (p_reported ?pl). \<exists>k. 1 \<le> k \<and> k \<le> pixelsProcessed ?pl \<and> r = progressOf k B"
    by (rule conjunct2[THEN conjunct2])
  with r run obtain k where k: "1 \<le> k" "k \<le> pixelsProcessed ?pl" "r = progressOf k B"
    by auto
  from k(2) counted_le[OF inv ci] have "k \<le> B" by simp
  with k(1,3) show ?thesis by blast
qed

lemma progressOf_unit:
  assumes "1 \<le> k" and "k \<le> B"
  shows "0 \<le> progressOf k B \<and> progressOf k B \<le> 1"
proof -
  have "0 < real B" using assms by simp
  moreover have "real k \<le> real B" using assms(2) by simp
  ultimately show ?thesis by (simp add: progressOf_def)
qed

lemma singleLoop_reports:
  "r \<in> set (snd (singleLoop env a S C B pixel res rep)) \<Longrightarrow>
   r \<in> set rep \<or> (\<exists>k. 1 \<le> k \<and> k \<le> B \<and> r = progressOf k B)"
proof (induction env a S C B pixel res rep rule: singleLoop.induct)
  case (1 env a S C B pixel res rep)
  show ?case
  proof (cases "pixel < B")
    case False
    with "1.prems" show ?thesis by (simp add: singleLoop_done)
  next
    case inb: True
    show ?thesis
    proof (cases "pixel mod 100 = 0 \<and> cancelAtPixel env pixel")
      case True
      with "1.prems" inb show ?thesis by (simp add: singleLoop_cancel)
    next
      case False
      let ?rep' = "if reportDue B pixel then rep @ [progressOf (pixel + 1) B] else rep"
      from "1.prems" have "r \<in> set (snd (singleLoop env a S C B (pixel + 1)
                                    (processPixel a S C pixel res) ?rep'))"
        by (simp only: singleLoop_next[OF inb False])
      from "1.IH"[OF inb False this]
      have "r \<in> set ?rep' \<or> (\<exists>k. 1 \<le> k \<and> k \<le> B \<and> r = progressOf k B)" .
      moreover have "r \<in> set ?rep' \<Longrightarrow> r \<in> set rep \<or> r = progressOf (pixel + 1) B"
        by (auto split: if_splits)
      moreover have "1 \<le> pixel + 1 \<and> pixel + 1 \<le> B" using inb by simp
      ultimately show ?thesis by blast
    qed
  qed
qed

text \<open>Every value \<^verbatim>\<open>processWaveform\<close> passes to its callback is a fraction in \<open>[0, 1]\<close>.\<close>

lemma processWaveform_reports:
  assumes "r \<in> set (snd (processWaveform env a S C))"
  shows "0 \<le> r \<and> r \<le> 1"
proof (cases "rejected a S C")
  case True
  with assms show ?thesis by (simp add: processWaveform_rejected)
next
  case ok: False
  let ?B = "numPixelsOf a S C"
  have Bpos: "1 \<le> ?B" using ok by (simp add: rejected_def)
  have S: "0 < nat S" using ok by (simp add: rejected_def)
  have B: "?B = length a div nat S div nat C" by (simp add: numPixelsOf_def)
  have "\<exists>k. 1 \<le> k \<and> k \<le> ?B \<and> r = progressOf k ?B"
  proof (cases "min (hardware_concurrency env) ?B \<le> 1")
    case True
    let ?run = "singleLoop env a (nat S) (nat C) ?B 0 (replicate (nat C) (replicate ?B 0)) []"
    obtain res rep where run: "?run = (res, rep)" by (cases ?run)
    from assms have "r \<in> set rep \<or> r = progressOf ?B ?B"
      by (cases res) (auto simp: processWaveform_single[OF ok True] run)
    moreover have "r \<in> set rep \<Longrightarrow> \<exists>k. 1 \<le> k \<and> k \<le> ?B \<and> r = progressOf k ?B"
      using singleLoop_reports[of r env a "nat S" "nat C" ?B 0 "replicate (nat C) (replicate ?B 0)" "[]"]
      by (simp add: run)
    ultimately show ?thesis using Bpos by blast
  next
    case mt: False
    let ?pl = "runWorkers env a (nat S) (nat C) ?B (min (hardware_concurrency env) ?B)
                 (replicate (nat C) (replicate ?B 0))"
    from assms have "r \<in> set (p_reported ?pl) \<or> r = progressOf ?B ?B"
      by (auto simp: processWaveform_threaded[OF ok mt] Let_def split: if_splits)
    moreover have "r \<in> set (p_reported ?pl) \<Longrightarrow> \<exists>k. 1 \<le> k \<and> k \<le> ?B \<and> r = progressOf k ?B"
      by (rule runWorkers_reports[OF S B])
    ultimately show ?thesis using Bpos by blast
  qed
  then show ?thesis using progressOf_unit by blast
qed

section \<open>The progress values of a run of extract\<close>

lemma updateProgress_unit:
  assumes "0 \<le> v" and "v \<le> 1"
  shows "updateProgress v st = st\<lparr>progress_field := v, delivered := delivered st @ [v]\<rparr>"
  using assms by (simp add: updateProgress_def Let_def)

lemma fold_progressMapper:
  assumes "\<forall>p \<in> set ps. 0 \<le> p \<and> p \<le> 1"
  shows "delivered (fold progressMapper ps st) = delivered st @ map (\<lambda>p. 1/2 + p * (3/10)) ps"
  using assms
proof (induction ps arbitrary: st)
  case Nil
  show ?case by simp
next
  case (Cons p ps)
  from Cons.prems have p: "0 \<le> p" "p \<le> 1" and rest: "\<forall>q \<in> set ps. 0 \<le> q \<and> q \<le> 1"
    by simp_all
  have lo: "0 \<le> 1/2 + p * (3/10)" using p(1) by simp
  have hi: "1/2 + p * (3/10) \<le> 1" using p(2) by simp
  have step: "progressMapper p st
      = st\<lparr>progress_field := 1/2 + p * (3/10), delivered := delivered st @ [1/2 + p * (3/10)]\<rparr>"
    using updateProgress_unit[OF lo hi, of st] by (simp add: progressMapper_def)
  show ?case by (simp add: step Cons.IH[OF rest])
qed

lemma afterProcessing_delivered:
  "delivered (afterProcessing env pcm)
     = [1/10, 1/2] @ map (\<lambda>p. 1/2 + p * (3/10)) (snd (processWaveform (processing env) pcm 100 2))"
proof -
  have "\<forall>p \<in> set (snd (processWaveform (processing env) pcm 100 2)). 0 \<le> p \<and> p \<le> 1"
    using processWaveform_reports by blast
  from fold_progressMapper[OF this] show ?thesis
    by (simp add: afterProcessing_def updateProgress_def Let_def)
qed

lemma extract_run_delivered:
  assumes "run_not_cancelled env" and "decode config = Inr pcm"
  shows "delivered (snd (extract_run decode env config))
     = [1/10, 1/2] @ map (\<lambda>p. 1/2 + p * (3/10)) (snd (processWaveform (processing env) pcm 100 2))
         @ [4/5, 1]"
proof -
  from assms(1) have nb: "\<not> cancelledBeforeDecode env" and rest: "\<not> cancelledAfterDecode env"
    "\<not> cancelledAfterProcess env" "\<not> cancelledAfterNormalize env"
    by (simp_all add: run_not_cancelled_def)
  show ?thesis
    using rest
    by (simp add: extract_run_decoded[where decode=decode and config=config, OF nb assms(2)]
        updateProgress_def Let_def afterProcessing_delivered)
qed

text \<open>The reports of the single-threaded loop come in increasing order.\<close>

lemma sorted_single_reports:
  "sorted (map (\<lambda>p. progressOf (p + 1) B) (filter (reportDue B) [0..<B]) @ [progressOf B B])"
proof -
  have mono: "progressOf j B \<le> progressOf k B" if "j \<le> k" for j k
    using that by (simp add: progressOf_def divide_right_mono)
  have "sorted_wrt (<) [0..<B]" by (rule sorted_wrt_upt)
  then have "sorted_wrt (<) (filter (reportDue B) [0..<B])" by (rule sorted_wrt_filter)
  then have "sorted_wrt (\<lambda>x y. progressOf (x + 1) B \<le> progressOf (y + 1) B)
               (filter (reportDue B) [0..<B])"
    by (rule sorted_wrt_mono_rel[rotated]) (simp add: mono)
  then have s: "sorted (map (\<lambda>p. progressOf (p + 1) B) (filter (reportDue B) [0..<B]))"
    by (simp add: sorted_map)
  have "\<forall>x \<in> set (map (\<lambda>p. progressOf (p + 1) B) (filter (reportDue B) [0..<B])).
          x \<le> progressOf B B"
    by (auto intro!: mono)
  with s show ?thesis by (simp add: sorted_append)
qed

lemma processWaveform_single_reports:
  assumes "not_cancelled env" and "min (hardware_concurrency env) (numPixelsOf a S C) \<le> 1"
  shows "sorted (snd (processWaveform env a S C))"
proof (cases "rejected a S C")
  case True
  then show ?thesis by (simp add: processWaveform_rejected)
next
  case False
  have nc: "never_polled_set env (numPixelsOf a S C)"
    by (rule not_cancelled_never_polled[OF assms(1)])
  show ?thesis
    using sorted_single_reports[of "numPixelsOf a S C"]
    by (simp add: processWaveform_single[OF False assms(2)] singleLoop_uncancelled[OF nc])
qed

lemma sorted_schedule:
  assumes "sorted ps" and "\<forall>p \<in> set ps. 0 \<le> p \<and> p \<le> (1::real)"
  shows "sorted ([1/10, 1/2] @ map (\<lambda>p. 1/2 + p * (3/10)) ps @ [4/5, 1])"
proof -
  have "sorted_wrt (\<lambda>x y. 1/2 + x * (3/10) \<le> 1/2 + y * (3/10)) ps"
    using assms(1) by (simp add: sorted_wrt_mono_rel[of ps "(\<le>)"])
  then have m: "sorted (map (\<lambda>p. 1/2 + p * (3/10)) ps)" by (simp add: sorted_map)
  have b: "\<forall>v \<in> set (map (\<lambda>p. 1/2 + p * (3/10)) ps). 1/2 \<le> v \<and> v \<le> 4/5"
    using assms(2) by auto
  show ?thesis using m b by (auto simp: sorted_append)
qed

text \<open>
  C6, as the code has it. Within one uncancelled run of \<open>extract\<close> whose decoder returns,
  the callback receives 0.1, then 0.5, then \<open>0.5 + 0.3 * p\<close> for each value \<open>p\<close> the processor
  reports (every such \<open>p\<close> lies in \<open>[0, 1]\<close>), then 0.8 and last 1.0; every value lies in
  \<open>[0, 1]\<close> and the final value is exactly 1.0. The sequence is non-decreasing when
  \<open>processWaveform\<close> takes its single-threaded path (one core at most, or a single bucket).
\<close>

theorem extract_progress_schedule:
  assumes "run_not_cancelled env" and "decode config = Inr pcm"
  shows "delivered (snd (extract_run decode env config))
           = [1/10, 1/2]
             @ map (\<lambda>p. 1/2 + p * (3/10)) (snd (processWaveform (processing env) pcm 100 2))
             @ [4/5, 1]
       \<and> (\<forall>p \<in> set (snd (processWaveform (processing env) pcm 100 2)). 0 \<le> p \<and> p \<le> 1)
       \<and> (\<forall>v \<in> set (delivered (snd (extract_run decode env config))). 0 \<le> v \<and> v \<le> 1)
       \<and> last (delivered (snd (extract_run decode env config))) = 1
       \<and> (min (hardware_concurrency (processing env)) (numPixelsOf pcm 100 2) \<le> 1
            \<longrightarrow> sorted (delivered (snd (extract_run decode env config))))"
proof -
  let ?ps = "snd (processWaveform (processing env) pcm 100 2)"
  note d = extract_run_delivered[where decode=decode and config=config, OF assms]
  have ps: "\<forall>p \<in> set ?ps. 0 \<le> p \<and> p \<le> 1" using processWaveform_reports by blast
  have vs: "\<forall>v \<in> set (delivered (snd (extract_run decode env config))). 0 \<le> v \<and> v \<le> 1"
    unfolding d using ps by auto
  have l: "last (delivered (snd (extract_run decode env config))) = 1"
    unfolding d by simp
  have s: "min (hardware_concurrency (processing env)) (numPixelsOf pcm 100 2) \<le> 1
            \<longrightarrow> sorted (delivered (snd (extract_run decode env config)))"
  proof
    assume single: "min (hardware_concurrency (processing env)) (numPixelsOf pcm 100 2) \<le> 1"
    have nc: "not_cancelled (processing env)" using assms(1) by (simp add: run_not_cancelled_def)
    have "sorted ?ps" by (rule processWaveform_single_reports[OF nc single])
    from sorted_schedule[OF this ps] show "sorted (delivered (snd (extract_run decode env config)))"
      by (simp only: d)
  qed
  from d ps vs l s show ?thesis by (intro conjI)
qed

theorem extract_progress_schedule_witness:
  "run_not_cancelled (run_env env_single)
   \<and> decode_tone ''a.wav'' = Inr (tone 400)
   \<and> min (hardware_concurrency (processing (run_env env_single))) (numPixelsOf (tone 400) 100 2) \<le> 1
   \<and> delivered (snd (extract_run decode_tone (run_env env_single) ''a.wav''))
       = [1/10, 1/2, 13/20, 4/5, 4/5, 4/5, 1]
   \<and> sorted (delivered (snd (extract_run decode_tone (run_env env_single) ''a.wav'')))
   \<and> last (delivered (snd (extract_run decode_tone (run_env env_single) ''a.wav''))) = 1"
proof -
  have nc: "run_not_cancelled (run_env env_single)"
    by (simp add: run_not_cancelled_def run_env_def not_cancelled_def env_single_def)
  have d: "decode_tone ''a.wav'' = Inr (tone 400)" by (simp add: decode_tone_def)
  have one: "min (hardware_concurrency (processing (run_env env_single)))
               (numPixelsOf (tone 400) 100 2) \<le> 1"
    by (simp add: run_env_def env_single_def)
  have v: "delivered (snd (extract_run decode_tone (run_env env_single) ''a.wav''))
       = [1/10, 1/2, 13/20, 4/5, 4/5, 4/5, 1]" by code_simp
  note inst = extract_progress_schedule[OF nc, where decode=decode_tone and config="''a.wav''", OF d]
  from inst one have s: "sorted (delivered (snd (extract_run decode_tone (run_env env_single) ''a.wav'')))"
    by blast
  from inst have l: "last (delivered (snd (extract_run decode_tone (run_env env_single) ''a.wav''))) = 1"
    by blast
  from nc d one v s l show ?thesis by (intro conjI)
qed

end
